theory Spec2Isabelle
  imports Main "HOL-Library.Word"
begin

unbundle bit_operations_syntax

section \<open>Data model of \<^verbatim>\<open>allocator.cpp\<close>\<close>

text \<open>
  The embedding fixes the LP64 platform the repository is built for: \<^verbatim>\<open>std::size_t\<close> and
  pointers are 64-bit words, \<^verbatim>\<open>alignof(std::max_align_t)\<close> is 16 and
  \<^verbatim>\<open>sizeof(Block)\<close> is 32. The null pointer is the word 0. Pointer arithmetic and
  \<^verbatim>\<open>size_t\<close> arithmetic wrap modulo \<open>2 ^ 64\<close>, pointer comparison is unsigned.
\<close>

type_synonym size_t = "64 word"

type_synonym addr = "64 word"

type_synonym byte = "8 word"

definition DEFAULT_HEAP_SIZE :: size_t where
  "DEFAULT_HEAP_SIZE = 16 * 1024 * 1024"

definition ALIGNMENT :: size_t where
  "ALIGNMENT = 16"

definition MIN_BLOCK_SIZE :: size_t where
  "MIN_BLOCK_SIZE = 32"

definition sizeof_Block :: size_t where
  "sizeof_Block = 32"

definition align_up :: "size_t \<Rightarrow> size_t \<Rightarrow> size_t" where
  "align_up n a = (n + (a - 1)) AND NOT (a - 1)"

text \<open>\<^verbatim>\<open>hdr_sz\<close> is the local \<^verbatim>\<open>align_up(sizeof(Block))\<close> of the source.\<close>

definition hdr_sz :: size_t where
  "hdr_sz = align_up sizeof_Block ALIGNMENT"

text \<open>The struct \<^verbatim>\<open>Block\<close>; the fields carry a suffix because \<open>size\<close> and \<open>next\<close> are taken.\<close>

record Block =
  size_B :: size_t
  free_B :: bool
  next_B :: addr
  prev_B :: addr

text \<open>
  The statics of the translation unit, together with the memory they point into. The backing
  buffer is seen through two views: \<open>blocks\<close> gives the \<^verbatim>\<open>Block\<close> object stored at a
  header address (what the code reads and writes through a \<^verbatim>\<open>Block*\<close>), and \<open>bytes\<close>
  gives the bytes the code touches through \<^verbatim>\<open>memset\<close> and \<^verbatim>\<open>memcpy\<close>. The two views
  are kept apart: a byte write does not change a header. This is what the program does as
  long as its byte writes stay inside the payload of one block, which is the case in every
  reachable state (\<open>calloc_write_inside_block\<close> and \<open>malloc_block_covers\<close> below; the
  \<^verbatim>\<open>memcpy\<close> of \<^verbatim>\<open>realloc\<close> copies at most the smaller of the two payloads).
\<close>

record allocator =
  heap_base :: addr
  heap_total_size :: size_t
  head :: addr
  initialized :: bool
  blocks :: "addr \<Rightarrow> Block"
  bytes :: "addr \<Rightarrow> byte"

text \<open>
  What a call can end in besides returning: the exception of \<^verbatim>\<open>init_allocator\<close> (the
  statics it has already assigned are not kept), a \<^verbatim>\<open>memset\<close> or \<^verbatim>\<open>memcpy\<close> whose range
  leaves the backing buffer (undefined behaviour in C++), and a scan of the chain that never
  ends.
\<close>

datatype error = Bad_alloc | Out_of_bounds | Nontermination

text \<open>The lines the code prints to \<^verbatim>\<open>stderr\<close>, with the pointer they mention.\<close>

datatype diag =
    Free_not_from_heap addr
  | Free_invalid_header addr
  | Double_free addr
  | Realloc_not_from_heap addr

subsection \<open>Field assignments through a \<^verbatim>\<open>Block*\<close>\<close>

definition set_size :: "(addr \<Rightarrow> Block) \<Rightarrow> addr \<Rightarrow> size_t \<Rightarrow> (addr \<Rightarrow> Block)" where
  "set_size B b v = B(b := (B b)\<lparr>size_B := v\<rparr>)"

definition set_free :: "(addr \<Rightarrow> Block) \<Rightarrow> addr \<Rightarrow> bool \<Rightarrow> (addr \<Rightarrow> Block)" where
  "set_free B b v = B(b := (B b)\<lparr>free_B := v\<rparr>)"

definition set_next :: "(addr \<Rightarrow> Block) \<Rightarrow> addr \<Rightarrow> addr \<Rightarrow> (addr \<Rightarrow> Block)" where
  "set_next B b v = B(b := (B b)\<lparr>next_B := v\<rparr>)"

definition set_prev :: "(addr \<Rightarrow> Block) \<Rightarrow> addr \<Rightarrow> addr \<Rightarrow> (addr \<Rightarrow> Block)" where
  "set_prev B b v = B(b := (B b)\<lparr>prev_B := v\<rparr>)"

subsection \<open>Byte writes\<close>

text \<open>
  \<open>a - p < n\<close> on words says that \<open>a\<close> is one of \<open>p, p + 1, \<dots>, p + (n - 1)\<close>.
\<close>

definition memset_bytes :: "(addr \<Rightarrow> byte) \<Rightarrow> addr \<Rightarrow> byte \<Rightarrow> size_t \<Rightarrow> (addr \<Rightarrow> byte)" where
  "memset_bytes m p c n = (\<lambda>a. if a - p < n then c else m a)"

definition memcpy_bytes :: "(addr \<Rightarrow> byte) \<Rightarrow> addr \<Rightarrow> addr \<Rightarrow> size_t \<Rightarrow> (addr \<Rightarrow> byte)" where
  "memcpy_bytes m dst src n = (\<lambda>a. if a - dst < n then m (src + (a - dst)) else m a)"

text \<open>The range \<open>[p, p + n)\<close> lies inside the backing buffer.\<close>

definition within_heap :: "allocator \<Rightarrow> addr \<Rightarrow> size_t \<Rightarrow> bool" where
  "within_heap s p n =
     (unat (heap_base s) \<le> unat p \<and>
      unat p + unat n \<le> unat (heap_base s) + unat (heap_total_size s))"

section \<open>The operations\<close>

text \<open>
  \<open>sys\<close> stands for \<^verbatim>\<open>std::malloc\<close>: the address it returns for a requested size, 0 when
  it fails. The buffer it returns is fresh, so its \<^verbatim>\<open>memset\<close> is in bounds.
\<close>

definition init_allocator :: "(size_t \<Rightarrow> addr) \<Rightarrow> allocator \<Rightarrow> size_t \<Rightarrow> error + allocator" where
  "init_allocator sys s heap_size =
     (if initialized s then Inr s
      else
        let total = align_up heap_size ALIGNMENT;
            base = sys total
        in if base = 0 then Inl Bad_alloc
           else
             let initial_payload = total - hdr_sz
             in Inr (s\<lparr>heap_base := base,
                      heap_total_size := total,
                      head := base,
                      initialized := True,
                      blocks := (blocks s)(base :=
                        \<lparr>size_B = initial_payload, free_B = True, next_B = 0, prev_B = 0\<rparr>),
                      bytes := memset_bytes (bytes s) base 0 total\<rparr>))"

definition payload_to_block :: "addr \<Rightarrow> addr" where
  "payload_to_block payload = (if payload = 0 then 0 else payload - hdr_sz)"

definition block_to_payload :: "addr \<Rightarrow> addr" where
  "block_to_payload b = (if b = 0 then 0 else b + hdr_sz)"

definition pointer_in_heap :: "allocator \<Rightarrow> addr \<Rightarrow> bool" where
  "pointer_in_heap s p =
     (if p = 0 \<or> \<not> initialized s then False
      else heap_base s \<le> p \<and> p < heap_base s + heap_total_size s)"

text \<open>The \<^verbatim>\<open>for\<close> loop of \<^verbatim>\<open>find_fit\<close>; \<open>None\<close> is a scan that does not end.\<close>

partial_function (option) find_fit :: "(addr \<Rightarrow> Block) \<Rightarrow> addr \<Rightarrow> size_t \<Rightarrow> addr option" where
  "find_fit B b asize =
     (if b = 0 then Some 0
      else if free_B (B b) \<and> asize \<le> size_B (B b) then Some b
      else find_fit B (next_B (B b)) asize)"

declare find_fit.simps [code]

definition split_block :: "(addr \<Rightarrow> Block) \<Rightarrow> addr \<Rightarrow> size_t \<Rightarrow> (addr \<Rightarrow> Block)" where
  "split_block B b asize =
     (if \<not> free_B (B b) then B
      else
        let B' =
          (if asize + hdr_sz + MIN_BLOCK_SIZE \<le> size_B (B b) then
             let remaining_payload = size_B (B b) - asize - hdr_sz;
                 newb = b + hdr_sz + asize;
                 B1 = set_size B newb remaining_payload;
                 B2 = set_free B1 newb True;
                 B3 = set_prev B2 newb b;
                 B4 = set_next B3 newb (next_B (B3 b));
                 B5 = (if next_B (B4 b) \<noteq> 0 then set_prev B4 (next_B (B4 b)) newb else B4);
                 B6 = set_next B5 b newb
             in set_size B6 b asize
           else B)
        in set_free B' b False)"

definition coalesce :: "(addr \<Rightarrow> Block) \<Rightarrow> addr \<Rightarrow> addr \<times> (addr \<Rightarrow> Block)" where
  "coalesce B b =
     (let B' =
        (if next_B (B b) \<noteq> 0 \<and> free_B (B (next_B (B b))) then
           let nxt = next_B (B b);
               B1 = set_size B b (size_B (B b) + (hdr_sz + size_B (B nxt)));
               B2 = set_next B1 b (next_B (B1 nxt))
           in if next_B (B2 nxt) \<noteq> 0 then set_prev B2 (next_B (B2 nxt)) b else B2
         else B)
      in if prev_B (B' b) \<noteq> 0 \<and> free_B (B' (prev_B (B' b))) then
           let pv = prev_B (B' b);
               B3 = set_size B' pv (size_B (B' pv) + (hdr_sz + size_B (B' b)));
               B4 = set_next B3 pv (next_B (B3 b));
               B5 = (if next_B (B4 b) \<noteq> 0 then set_prev B4 (next_B (B4 b)) pv else B4)
           in (pv, B5)
         else (b, B'))"

text \<open>
  The two lines \<^verbatim>\<open>asize = align_up(size); if (asize < MIN_BLOCK_SIZE) asize = MIN_BLOCK_SIZE;\<close>
  that \<^verbatim>\<open>malloc\<close> and \<^verbatim>\<open>realloc\<close> share.
\<close>

definition request_size :: "size_t \<Rightarrow> size_t" where
  "request_size n =
     (let asize = align_up n ALIGNMENT
      in if asize < MIN_BLOCK_SIZE then MIN_BLOCK_SIZE else asize)"

definition malloc :: "(size_t \<Rightarrow> addr) \<Rightarrow> allocator \<Rightarrow> size_t \<Rightarrow> error + (addr \<times> allocator)" where
  "malloc sys s sz =
     (if sz = 0 then Inr (0, s)
      else
        case (if \<not> initialized s then init_allocator sys s DEFAULT_HEAP_SIZE else Inr s) of
          Inl e \<Rightarrow> Inl e
        | Inr s1 \<Rightarrow>
            let asize = request_size sz
            in case find_fit (blocks s1) (head s1) asize of
                 None \<Rightarrow> Inl Nontermination
               | Some b \<Rightarrow>
                   if b = 0 then Inr (0, s1)
                   else Inr (block_to_payload b,
                             s1\<lparr>blocks := split_block (blocks s1) b asize\<rparr>))"

text \<open>\<^verbatim>\<open>free\<close> returns nothing; the model returns what it printed and the new state.\<close>

definition free :: "allocator \<Rightarrow> addr \<Rightarrow> diag list \<times> allocator" where
  "free s ptr =
     (if ptr = 0 then ([], s)
      else if ptr < heap_base s \<or> heap_base s + heap_total_size s \<le> ptr
        then ([Free_not_from_heap ptr], s)
      else
        let b = payload_to_block ptr
        in if b < heap_base s \<or> heap_base s + heap_total_size s \<le> b
             then ([Free_invalid_header ptr], s)
           else if free_B (blocks s b) then ([Double_free ptr], s)
           else ([], s\<lparr>blocks := snd (coalesce (set_free (blocks s) b True) b)\<rparr>))"

text \<open>
  \<^verbatim>\<open>realloc\<close> returns the pointer; the model adds what was printed and the new state. The
  test before \<^verbatim>\<open>memcpy\<close>, like the one before \<^verbatim>\<open>memset\<close> in \<^verbatim>\<open>calloc\<close>, is not in the
  source: it marks the calls in which the copy would leave the backing buffer.
\<close>

definition realloc ::
  "(size_t \<Rightarrow> addr) \<Rightarrow> allocator \<Rightarrow> addr \<Rightarrow> size_t \<Rightarrow> error + (addr \<times> diag list \<times> allocator)" where
  "realloc sys s ptr new_size =
     (if ptr = 0 then
        (case malloc sys s new_size of Inl e \<Rightarrow> Inl e | Inr (p, s') \<Rightarrow> Inr (p, [], s'))
      else if new_size = 0 then
        (let (d, s') = free s ptr in Inr (0, d, s'))
      else if \<not> pointer_in_heap s ptr then Inr (0, [Realloc_not_from_heap ptr], s)
      else
        let b = payload_to_block ptr;
            asize = request_size new_size;
            B = blocks s
        in if asize \<le> size_B (B b) then
             Inr (ptr, [], s\<lparr>blocks := split_block B b asize\<rparr>)
           else if next_B (B b) \<noteq> 0 \<and> free_B (B (next_B (B b))) \<and>
                   asize \<le> size_B (B b) + hdr_sz + size_B (B (next_B (B b))) then
             let nxt = next_B (B b);
                 combined = size_B (B b) + hdr_sz + size_B (B nxt);
                 B1 = set_size B b combined;
                 B2 = set_next B1 b (next_B (B1 nxt));
                 B3 = (if next_B (B2 nxt) \<noteq> 0 then set_prev B2 (next_B (B2 nxt)) b else B2);
                 B4 = split_block B3 b asize
             in Inr (ptr, [], s\<lparr>blocks := set_free B4 b False\<rparr>)
           else
             case malloc sys s new_size of
               Inl e \<Rightarrow> Inl e
             | Inr (newp, s1) \<Rightarrow>
                 if newp = 0 then Inr (0, [], s1)
                 else
                   let n = min (size_B (blocks s1 b)) asize
                   in if \<not> (within_heap s1 newp n \<and> within_heap s1 ptr n) then Inl Out_of_bounds
                      else
                        let s2 = s1\<lparr>bytes := memcpy_bytes (bytes s1) newp ptr n\<rparr>;
                            (d, s3) = free s2 ptr
                        in Inr (newp, d, s3))"

definition calloc :: "(size_t \<Rightarrow> addr) \<Rightarrow> allocator \<Rightarrow> size_t \<Rightarrow> size_t \<Rightarrow> error + (addr \<times> allocator)" where
  "calloc sys s nmemb sz =
     (if nmemb = 0 \<or> sz = 0 then Inr (0, s)
      else if (- 1) div sz < nmemb then Inr (0, s)
      else
        let total = nmemb * sz
        in case malloc sys s total of
             Inl e \<Rightarrow> Inl e
           | Inr (p, s1) \<Rightarrow>
               if p \<noteq> 0 then
                 (if within_heap s1 p total
                  then Inr (p, s1\<lparr>bytes := memset_bytes (bytes s1) p 0 total\<rparr>)
                  else Inl Out_of_bounds)
               else Inr (p, s1))"

section \<open>The chain as the claims see it\<close>

text \<open>
  \<open>walk B a as\<close>: following \<^verbatim>\<open>next\<close> from the header address \<open>a\<close> visits exactly the
  header addresses \<open>as\<close>, in this order, and then reaches the null pointer. With
  \<open>a = head\<close> this is the enumeration \<^verbatim>\<open>dump_heap\<close> prints.
\<close>

primrec walk :: "(addr \<Rightarrow> Block) \<Rightarrow> addr \<Rightarrow> addr list \<Rightarrow> bool" where
  "walk B a [] = (a = 0)"
| "walk B a (x # xs) = (a = x \<and> x \<noteq> 0 \<and> walk B (next_B (B x)) xs)"

definition in_chain :: "allocator \<Rightarrow> addr \<Rightarrow> bool" where
  "in_chain s b = (\<exists>as. walk (blocks s) (head s) as \<and> b \<in> set as)"

text \<open>
  The chain \<open>as\<close> partitions the arena: the first header is at the base, each next header
  starts where the payload before it ends, and the last payload ends at the end of the
  buffer. The sums are taken in \<open>nat\<close>, so nothing wraps.
\<close>

definition tiles :: "allocator \<Rightarrow> addr list \<Rightarrow> bool" where
  "tiles s as =
     (as \<noteq> [] \<and> hd as = heap_base s \<and>
      (\<forall>i. Suc i < length as \<longrightarrow>
         unat (as ! Suc i) = unat (as ! i) + unat hdr_sz + unat (size_B (blocks s (as ! i)))) \<and>
      unat (last as) + unat hdr_sz + unat (size_B (blocks s (last as))) =
        unat (heap_base s) + unat (heap_total_size s))"

definition no_adjacent_free :: "allocator \<Rightarrow> bool" where
  "no_adjacent_free s =
     (\<forall>as i. walk (blocks s) (head s) as \<longrightarrow> Suc i < length as \<longrightarrow>
        \<not> (free_B (blocks s (as ! i)) \<and> free_B (blocks s (as ! Suc i))))"


text \<open>\<open>p\<close> does not point into \<open>[heap_base, heap_base + heap_total_size)\<close>.\<close>

definition outside_arena :: "allocator \<Rightarrow> addr \<Rightarrow> bool" where
  "outside_arena s p =
     (unat p < unat (heap_base s) \<or> unat (heap_base s) + unat (heap_total_size s) \<le> unat p)"

text \<open>
  The call \<^verbatim>\<open>realloc(ptr, n)\<close> gets past both in-place branches: the pointer is accepted,
  the block is smaller than the rounded size, and its successor is missing, allocated or too
  small.
\<close>

definition relocates :: "allocator \<Rightarrow> addr \<Rightarrow> size_t \<Rightarrow> bool" where
  "relocates s ptr n =
     (let b = payload_to_block ptr; B = blocks s
      in ptr \<noteq> 0 \<and> n \<noteq> 0 \<and> pointer_in_heap s ptr \<and>
         \<not> request_size n \<le> size_B (B b) \<and>
         \<not> (next_B (B b) \<noteq> 0 \<and> free_B (B (next_B (B b))) \<and>
            request_size n \<le> size_B (B b) + hdr_sz + size_B (B (next_B (B b)))))"

text \<open>
  What \<^verbatim>\<open>std::malloc\<close> guarantees of a buffer of \<open>n\<close> bytes at \<open>p\<close>: it is not null, its
  one-past-the-end pointer is representable, and no object is larger than
  \<^verbatim>\<open>PTRDIFF_MAX\<close>.
\<close>

definition fresh_buffer :: "addr \<Rightarrow> size_t \<Rightarrow> bool" where
  "fresh_buffer p n = (p \<noteq> 0 \<and> unat p + unat n < 2 ^ 64 \<and> unat n < 2 ^ 63)"

text \<open>
  The pointers a caller may hand to \<^verbatim>\<open>free\<close> and \<^verbatim>\<open>realloc\<close>: the null pointer, a
  pointer outside the arena, or the payload address of a block of the chain (allocated or
  already free).
\<close>

definition caller_pointer :: "allocator \<Rightarrow> addr \<Rightarrow> bool" where
  "caller_pointer s ptr =
     (ptr = 0 \<or> \<not> pointer_in_heap s ptr \<or> in_chain s (payload_to_block ptr))"

text \<open>
  The arena states the public operations reach: one initialisation whose rounded size holds
  at least the first header, followed by any calls that return and by the caller's writes of
  single bytes into the payload of a block it holds. (A first \<^verbatim>\<open>malloc\<close> on the
  uninitialised statics is the initialisation with \<^verbatim>\<open>DEFAULT_HEAP_SIZE\<close> followed by that
  \<^verbatim>\<open>malloc\<close>.)
\<close>

inductive reachable :: "allocator \<Rightarrow> bool" where
  by_init:
    "\<not> initialized s0 \<Longrightarrow> init_allocator sys s0 n = Inr s \<Longrightarrow>
     fresh_buffer (sys (align_up n ALIGNMENT)) (align_up n ALIGNMENT) \<Longrightarrow>
     hdr_sz \<le> align_up n ALIGNMENT \<Longrightarrow> reachable s"
| by_malloc:
    "reachable s \<Longrightarrow> malloc sys s n = Inr (p, s') \<Longrightarrow> reachable s'"
| by_free:
    "reachable s \<Longrightarrow> caller_pointer s ptr \<Longrightarrow> free s ptr = (d, s') \<Longrightarrow> reachable s'"
| by_realloc:
    "reachable s \<Longrightarrow> caller_pointer s ptr \<Longrightarrow> realloc sys s ptr n = Inr (p, d, s') \<Longrightarrow>
     reachable s'"
| by_calloc:
    "reachable s \<Longrightarrow> calloc sys s k n = Inr (p, s') \<Longrightarrow> reachable s'"
| by_write:
    "reachable s \<Longrightarrow> in_chain s b \<Longrightarrow> \<not> free_B (blocks s b) \<Longrightarrow>
     unat b + unat hdr_sz \<le> unat a \<Longrightarrow>
     unat a < unat b + unat hdr_sz + unat (size_B (blocks s b)) \<Longrightarrow>
     reachable (s\<lparr>bytes := (bytes s)(a := v)\<rparr>)"

section \<open>The chain as a list of blocks\<close>

text \<open>
  For the proofs the chain is described by a list of triples (header address, payload size,
  free flag). \<open>hdrs B pv L e\<close> says that the store holds, at each address of \<open>L\<close>, exactly
  the header the list determines, with \<open>pv\<close> before the first block and \<open>e\<close> after the
  last; \<open>laid_out pos L lim\<close> says that the blocks of \<open>L\<close> follow each other from position
  \<open>pos\<close> to position \<open>lim\<close>.
\<close>

type_synonym blk = "addr \<times> size_t \<times> bool"

definition first_addr :: "blk list \<Rightarrow> addr \<Rightarrow> addr" where
  "first_addr L e = (case L of [] \<Rightarrow> e | x # _ \<Rightarrow> fst x)"

definition last_addr :: "addr \<Rightarrow> blk list \<Rightarrow> addr" where
  "last_addr pv L = (if L = [] then pv else fst (last L))"

fun hdrs :: "(addr \<Rightarrow> Block) \<Rightarrow> addr \<Rightarrow> blk list \<Rightarrow> addr \<Rightarrow> bool" where
  "hdrs B pv [] e = True"
| "hdrs B pv (x # L) e =
     (B (fst x) =
        \<lparr>size_B = fst (snd x), free_B = snd (snd x), next_B = first_addr L e, prev_B = pv\<rparr>
      \<and> hdrs B (fst x) L e)"

fun laid_out :: "nat \<Rightarrow> blk list \<Rightarrow> nat \<Rightarrow> bool" where
  "laid_out pos [] lim = (pos = lim)"
| "laid_out pos (x # L) lim =
     (unat (fst x) = pos \<and> laid_out (pos + 32 + unat (fst (snd x))) L lim)"

definition both_free :: "blk \<Rightarrow> blk \<Rightarrow> bool" where
  "both_free x y = (snd (snd x) \<and> snd (snd y))"

definition rep :: "allocator \<Rightarrow> blk list \<Rightarrow> bool" where
  "rep s L =
     (initialized s \<and> L \<noteq> [] \<and> head s = first_addr L 0 \<and>
      hdrs (blocks s) 0 L 0 \<and>
      laid_out (unat (heap_base s)) L (unat (heap_base s) + unat (heap_total_size s)) \<and>
      successively (\<lambda>x y. \<not> both_free x y) L \<and>
      fresh_buffer (heap_base s) (heap_total_size s))"

text \<open>The test of \<^verbatim>\<open>find_fit\<close> on a block of the list.\<close>

definition fits :: "size_t \<Rightarrow> blk \<Rightarrow> bool" where
  "fits asize x = (snd (snd x) \<and> asize \<le> fst (snd x))"

text \<open>What \<^verbatim>\<open>split_block\<close> makes of a free block \<open>x\<close> of the list.\<close>

definition a_split :: "blk \<Rightarrow> size_t \<Rightarrow> blk list" where
  "a_split x asize =
     (if unat asize + 64 \<le> unat (fst (snd x))
      then [(fst x, asize, False), (fst x + hdr_sz + asize, fst (snd x) - asize - hdr_sz, True)]
      else [(fst x, fst (snd x), False)])"

text \<open>
  The three assignments by which a block \<open>a\<close> takes over its successor \<open>nxt\<close>; both halves
  of \<^verbatim>\<open>coalesce\<close> and the in-place growth of \<^verbatim>\<open>realloc\<close> are instances.
\<close>

definition absorb :: "(addr \<Rightarrow> Block) \<Rightarrow> addr \<Rightarrow> addr \<Rightarrow> (addr \<Rightarrow> Block)" where
  "absorb B a nxt =
     (let B1 = set_size B a (size_B (B a) + (hdr_sz + size_B (B nxt)));
          B2 = set_next B1 a (next_B (B1 nxt))
      in if next_B (B2 nxt) \<noteq> 0 then set_prev B2 (next_B (B2 nxt)) a else B2)"

section \<open>A concrete run\<close>

text \<open>
  \<^verbatim>\<open>std::malloc\<close> hands out the buffer at address 4096; the statics start zeroed, as C++
  initialises them.
\<close>

definition ex_sys :: "size_t \<Rightarrow> addr" where
  "ex_sys n = 4096"

definition ex_blank :: allocator where
  "ex_blank =
     \<lparr>heap_base = 0, heap_total_size = 0, head = 0, initialized = False,
      blocks = (\<lambda>_. \<lparr>size_B = 0, free_B = False, next_B = 0, prev_B = 0\<rparr>),
      bytes = (\<lambda>_. 0)\<rparr>"

definition ex_init :: allocator where
  "ex_init = (case init_allocator ex_sys ex_blank 1024 of Inr s \<Rightarrow> s | Inl e \<Rightarrow> ex_blank)"

definition ex_one :: allocator where
  "ex_one = (case malloc ex_sys ex_init 64 of Inr (p, s) \<Rightarrow> s | Inl e \<Rightarrow> ex_init)"


text \<open>
  Two more states of the small arena: \<open>ex_one\<close> after the caller has written the byte 170
  to the first byte of its block, and the arena \<^verbatim>\<open>init_allocator(16)\<close> sets up, which is
  smaller than one header.
\<close>

definition ex_written :: allocator where
  "ex_written = ex_one\<lparr>bytes := (bytes ex_one)(4128 := 170)\<rparr>"

definition ex_tiny :: allocator where
  "ex_tiny = (case init_allocator ex_sys ex_blank 16 of Inr s \<Rightarrow> s | Inl e \<Rightarrow> ex_blank)"

text \<open>
  The run of the repository's test program up to its first \<^verbatim>\<open>realloc\<close>: an arena of 1 MiB
  (here at address 65536), \<^verbatim>\<open>a = malloc(64)\<close>, \<^verbatim>\<open>b = malloc(128)\<close>, \<^verbatim>\<open>free(a)\<close>,
  \<^verbatim>\<open>b = realloc(b, 512)\<close>; and, from the fresh arena, its \<^verbatim>\<open>big = malloc(1024)\<close>.
\<close>

definition test_sys :: "size_t \<Rightarrow> addr" where
  "test_sys n = 65536"

definition test_init :: allocator where
  "test_init =
     (case init_allocator test_sys ex_blank (1024 * 1024) of Inr s \<Rightarrow> s | Inl e \<Rightarrow> ex_blank)"

definition test_a :: allocator where
  "test_a = (case malloc test_sys test_init 64 of Inr (p, s) \<Rightarrow> s | Inl e \<Rightarrow> test_init)"

definition test_b :: allocator where
  "test_b = (case malloc test_sys test_a 128 of Inr (p, s) \<Rightarrow> s | Inl e \<Rightarrow> test_a)"

definition test_freed :: allocator where
  "test_freed = snd (free test_b 65568)"

definition test_grown :: allocator where
  "test_grown =
     (case realloc test_sys test_freed 65664 512 of Inr (p, d, s) \<Rightarrow> s | Inl e \<Rightarrow> test_freed)"

definition test_big :: allocator where
  "test_big = (case malloc test_sys test_init 1024 of Inr (p, s) \<Rightarrow> s | Inl e \<Rightarrow> test_init)"

section \<open>Arithmetic of sizes and addresses\<close>

lemma hdr_sz_32: "hdr_sz = 32"
  by (simp add: hdr_sz_def align_up_def sizeof_Block_def ALIGNMENT_def)

lemma unat_plus: "unat (x :: size_t) + unat y < 2 ^ 64 \<Longrightarrow> unat (x + y) = unat x + unat y"
  using unat_add_lem[of x y] by simp

lemma unat_minus: "unat (y :: size_t) \<le> unat x \<Longrightarrow> unat (x - y) = unat x - unat y"
  by (simp add: unat_sub word_le_nat_alt)

lemma unat_size_t_less: "unat (x :: size_t) < 2 ^ 64"
  using unsigned_less[of x, where 'a = nat] by simp

lemma split_cond:
  "unat asize + 64 < 2 ^ 64 \<Longrightarrow>
   (asize + hdr_sz + MIN_BLOCK_SIZE \<le> (sz :: size_t)) = (unat asize + 64 \<le> unat sz)"
proof -
  assume a: "unat asize + 64 < 2 ^ 64"
  have "asize + hdr_sz + MIN_BLOCK_SIZE = asize + 64" by (simp add: hdr_sz_32 MIN_BLOCK_SIZE_def)
  moreover have "unat (asize + 64) = unat asize + 64" using unat_plus[of asize 64] a by simp
  ultimately show ?thesis by (simp only: word_le_nat_alt)
qed

lemma and_not_15: "(x :: size_t) AND NOT 15 = push_bit 4 (drop_bit 4 x)"
proof -
  have m: "(15 :: size_t) = mask 4" by (simp add: mask_eq_exp_minus_1)
  show ?thesis unfolding m by (rule bit_eqI) (auto simp: bit_simps)
qed

lemma unat_and_not_15: "unat ((x :: size_t) AND NOT 15) = (unat x div 16) * 16"
proof -
  have "unat (drop_bit 4 x) = drop_bit 4 (unat x)" by (simp only: unat_drop_bit_eq)
  then have d: "unat (drop_bit 4 x) = unat x div 16" by (simp add: drop_bit_eq_div)
  have "(unat x div 16) * 16 \<le> unat x" by simp
  also have "\<dots> < 2 ^ 64" by (rule unat_size_t_less)
  finally have l: "(unat x div 16) * 16 < 2 ^ 64" .
  have "unat (push_bit 4 (drop_bit 4 x)) = (unat (drop_bit 4 x) * 16) mod 2 ^ 64"
    by (simp add: push_bit_eq_mult unat_word_ariths)
  with d l show ?thesis by (simp only: and_not_15 mod_less)
qed

lemma unat_align_up:
  "unat (align_up n ALIGNMENT) = ((unat n + 15) mod 2 ^ 64 div 16) * 16"
proof -
  have "align_up n ALIGNMENT = (n + 15) AND NOT 15"
    by (simp add: align_up_def ALIGNMENT_def)
  moreover have "unat (n + 15) = (unat n + 15) mod 2 ^ 64" by (simp add: unat_word_ariths)
  ultimately show ?thesis by (simp only: unat_and_not_15)
qed

lemma align_up_rounds:
  "unat n + 15 < 2 ^ 64 \<Longrightarrow> unat (align_up n ALIGNMENT) = ((unat n + 15) div 16) * 16"
  by (simp add: unat_align_up)

lemma align_up_is_round_up:
  assumes "unat n + 15 < 2 ^ 64"
  shows "16 dvd unat (align_up n ALIGNMENT)" "unat n \<le> unat (align_up n ALIGNMENT)"
    "unat (align_up n ALIGNMENT) < unat n + 16"
proof -
  have e: "unat (align_up n ALIGNMENT) = ((unat n + 15) div 16) * 16"
    using align_up_rounds[OF assms] .
  show "16 dvd unat (align_up n ALIGNMENT)" unfolding e by simp
  show "unat n \<le> unat (align_up n ALIGNMENT)" unfolding e by presburger
  show "unat (align_up n ALIGNMENT) < unat n + 16" unfolding e by presburger
qed

lemma align_up_wraps_to_zero:
  assumes "- 1 - (ALIGNMENT - 1) < n"
  shows "align_up n ALIGNMENT = 0"
proof -
  have "2 ^ 64 - 16 < unat n" using assms by (simp add: ALIGNMENT_def word_less_nat_alt)
  moreover have "unat n < 2 ^ 64" by (rule unat_size_t_less)
  ultimately obtain k where k: "unat n + 15 = k + 2 ^ 64" "k < 15"
    by (intro that[of "unat n + 15 - 2 ^ 64"]) simp_all
  have "(unat n + 15) mod 2 ^ 64 = k" unfolding k(1) using k(2) by simp
  with k(2) have "(unat n + 15) mod 2 ^ 64 < 15" by simp
  then have "unat (align_up n ALIGNMENT) = 0" by (simp add: unat_align_up)
  then show ?thesis by (simp add: unat_eq_0)
qed

lemma request_size_covers:
  assumes "unat n + 15 < 2 ^ 64"
  shows "unat n \<le> unat (request_size n)"
proof -
  have "unat n \<le> unat (align_up n ALIGNMENT)" using align_up_is_round_up(2)[OF assms] .
  moreover have "unat (align_up n ALIGNMENT) \<le> unat (request_size n)"
    by (auto simp: request_size_def Let_def word_le_nat_alt[symmetric])
  ultimately show ?thesis by simp
qed

section \<open>Lists of blocks: appending, framing, positions\<close>

lemma first_addr_simps [simp]: "first_addr [] e = e" "first_addr (x # L) e = fst x"
  by (simp_all add: first_addr_def)

lemma last_addr_simps [simp]:
  "last_addr pv [] = pv" "last_addr pv (L @ [x]) = fst x"
  "last_addr pv (x # L) = last_addr (fst x) L"
  by (simp_all add: last_addr_def)

lemma first_addr_append [simp]: "first_addr (xs @ ys) e = first_addr xs (first_addr ys e)"
  by (cases xs) simp_all

lemma hdrs_append:
  "hdrs B pv (xs @ ys) e \<longleftrightarrow> hdrs B pv xs (first_addr ys e) \<and> hdrs B (last_addr pv xs) ys e"
  by (induction xs arbitrary: pv) auto

lemma hdrs_frame:
  "a \<notin> fst ` set L \<Longrightarrow> hdrs (B(a := v)) pv L e = hdrs B pv L e"
  by (induction L arbitrary: pv) auto

lemma hdrs_mem:
  "hdrs B pv L e \<Longrightarrow> x \<in> set L \<Longrightarrow> size_B (B (fst x)) = fst (snd x) \<and> free_B (B (fst x)) = snd (snd x)"
  by (induction L arbitrary: pv) auto

lemma laid_out_append:
  "laid_out pos (xs @ ys) lim \<longleftrightarrow> (\<exists>mid. laid_out pos xs mid \<and> laid_out mid ys lim)"
  by (induction xs arbitrary: pos) auto

lemma laid_out_le: "laid_out pos L lim \<Longrightarrow> pos \<le> lim"
  by (induction L arbitrary: pos) force+

lemma laid_out_bounds:
  "laid_out pos L lim \<Longrightarrow> x \<in> set L \<Longrightarrow>
   pos \<le> unat (fst x) \<and> unat (fst x) + 32 + unat (fst (snd x)) \<le> lim"
proof (induction L arbitrary: pos)
  case Nil
  then show ?case by simp
next
  case (Cons y L)
  show ?case
  proof (cases "x = y")
    case True
    with Cons.prems laid_out_le[of "pos + 32 + unat (fst (snd y))" L lim] show ?thesis by auto
  next
    case False
    with Cons.prems have "x \<in> set L" "laid_out (pos + 32 + unat (fst (snd y))) L lim" by auto
    from Cons.IH[OF this(2) this(1)] show ?thesis by auto
  qed
qed

lemma laid_out_distinct: "laid_out pos L lim \<Longrightarrow> distinct (map fst L)"
proof (induction L arbitrary: pos)
  case Nil
  then show ?case by simp
next
  case (Cons x L)
  then have lo: "laid_out (pos + 32 + unat (fst (snd x))) L lim" and p: "unat (fst x) = pos"
    by auto
  have "fst x \<notin> fst ` set L"
  proof
    assume "fst x \<in> fst ` set L"
    then obtain y where "y \<in> set L" "fst y = fst x" by auto
    with laid_out_bounds[OF lo this(1)] p show False by simp
  qed
  with Cons.IH[OF lo] show ?case by simp
qed

lemma laid_out_nonzero:
  "laid_out pos L lim \<Longrightarrow> 0 < pos \<Longrightarrow> 0 \<notin> fst ` set L"
  using laid_out_bounds by fastforce

lemma laid_out_wf:
  assumes "laid_out pos L lim" "0 < pos"
  shows "distinct (map fst L)" "0 \<notin> fst ` set L"
  using laid_out_distinct[OF assms(1)] laid_out_nonzero[OF assms] by auto

lemma laid_out_flag:
  "laid_out pos (xs @ (b, sz, f) # ys) lim \<Longrightarrow> laid_out pos (xs @ (b, sz, f') # ys) lim"
  by (auto simp: laid_out_append)

lemma laid_out_step:
  "laid_out pos L lim \<Longrightarrow> Suc i < length L \<Longrightarrow>
   unat (fst (L ! Suc i)) = unat (fst (L ! i)) + 32 + unat (fst (snd (L ! i)))"
proof (induction L arbitrary: pos i)
  case Nil
  then show ?case by simp
next
  case (Cons x L)
  show ?case
  proof (cases i)
    case 0
    with Cons.prems show ?thesis by (cases L) auto
  next
    case (Suc j)
    with Cons.prems Cons.IH[of "pos + 32 + unat (fst (snd x))" j] show ?thesis by auto
  qed
qed

lemma laid_out_first: "laid_out pos L lim \<Longrightarrow> L \<noteq> [] \<Longrightarrow> unat (fst (hd L)) = pos"
  by (cases L) auto

lemma laid_out_last:
  "laid_out pos L lim \<Longrightarrow> L \<noteq> [] \<Longrightarrow>
   unat (fst (last L)) + 32 + unat (fst (snd (last L))) = lim"
  by (induction L arbitrary: pos) (auto split: if_splits)


lemma walk_hdrs:
  "hdrs B pv L 0 \<Longrightarrow> 0 \<notin> fst ` set L \<Longrightarrow> walk B (first_addr L 0) (map fst L)"
  by (induction L arbitrary: pv) auto

lemma walk_unique: "walk B a as \<Longrightarrow> walk B a bs \<Longrightarrow> as = bs"
proof (induction as arbitrary: a bs)
  case Nil
  then show ?case by (cases bs) auto
next
  case (Cons x as)
  then show ?case by (cases bs) auto
qed

section \<open>States represented by a list\<close>

lemma rep_facts:
  assumes "rep s L"
  shows "0 < unat (heap_base s)"
    and "unat (heap_base s) + unat (heap_total_size s) < 2 ^ 64"
    and "x \<in> set L \<Longrightarrow> unat (fst (snd x)) + 64 < 2 ^ 64"
    and "0 \<notin> fst ` set L"
    and "distinct (map fst L)"
proof -
  show b: "0 < unat (heap_base s)" using assms by (simp add: rep_def fresh_buffer_def unat_gt_0)
  show "unat (heap_base s) + unat (heap_total_size s) < 2 ^ 64"
    using assms by (simp add: rep_def fresh_buffer_def)
  have lo: "laid_out (unat (heap_base s)) L (unat (heap_base s) + unat (heap_total_size s))"
    using assms by (simp add: rep_def)
  show "0 \<notin> fst ` set L" using laid_out_nonzero[OF lo b] .
  show "distinct (map fst L)" using laid_out_distinct[OF lo] .
  assume "x \<in> set L"
  from laid_out_bounds[OF lo this] have "unat (fst (snd x)) \<le> unat (heap_total_size s)" by simp
  moreover have "unat (heap_total_size s) < 2 ^ 63" using assms by (simp add: rep_def fresh_buffer_def)
  ultimately show "unat (fst (snd x)) + 64 < 2 ^ 64" by simp
qed

lemma rep_bytes [simp]: "rep (s\<lparr>bytes := m\<rparr>) L = rep s L"
  by (simp add: rep_def)

lemma rep_walk: "rep s L \<Longrightarrow> walk (blocks s) (head s) (map fst L)"
  using walk_hdrs[of "blocks s" 0 L] rep_facts(4)[of s L] by (simp add: rep_def)

lemma rep_walk_eq: "rep s L \<Longrightarrow> walk (blocks s) (head s) as \<longleftrightarrow> as = map fst L"
  using rep_walk walk_unique by blast

lemma rep_in_chain: "rep s L \<Longrightarrow> in_chain s b \<longleftrightarrow> b \<in> fst ` set L"
  by (auto simp: in_chain_def rep_walk_eq)

lemma rep_payload_nonzero:
  assumes r: "rep s L" and x: "x \<in> set L"
  shows "fst x + hdr_sz \<noteq> 0" "unat (fst x + hdr_sz) = unat (fst x) + 32"
proof -
  have "laid_out (unat (heap_base s)) L (unat (heap_base s) + unat (heap_total_size s))"
    using r by (simp add: rep_def)
  from laid_out_bounds[OF this x] rep_facts(2)[OF r]
  show u: "unat (fst x + hdr_sz) = unat (fst x) + 32"
    unfolding hdr_sz_32 by (simp add: unat_plus)
  then show "fst x + hdr_sz \<noteq> 0" by auto
qed

lemma rep_outside:
  assumes r: "rep s L"
  shows "(p < heap_base s \<or> heap_base s + heap_total_size s \<le> p) = outside_arena s p"
proof -
  have "unat (heap_base s + heap_total_size s) = unat (heap_base s) + unat (heap_total_size s)"
    using rep_facts(2)[OF r] by (simp add: unat_plus)
  then show ?thesis by (simp add: outside_arena_def word_less_nat_alt word_le_nat_alt)
qed


lemma rep_tiles:
  assumes r: "rep s L"
  shows "tiles s (map fst L)"
proof -
  have h: "hdrs (blocks s) 0 L 0" and ne: "L \<noteq> []"
    and lo: "laid_out (unat (heap_base s)) L (unat (heap_base s) + unat (heap_total_size s))"
    using r by (simp_all add: rep_def)
  have sz: "size_B (blocks s (fst x)) = fst (snd x)" if "x \<in> set L" for x
    using hdrs_mem[OF h that] by simp
  have 1: "hd (map fst L) = heap_base s"
    using laid_out_first[OF lo ne] ne by (simp add: hd_map word_unat_eq_iff)
  have 2: "unat (map fst L ! Suc i) =
           unat (map fst L ! i) + unat hdr_sz + unat (size_B (blocks s (map fst L ! i)))"
    if "Suc i < length (map fst L)" for i
    using laid_out_step[OF lo, of i] that sz[of "L ! i"] by (simp add: hdr_sz_32)
  have 3: "unat (last (map fst L)) + unat hdr_sz + unat (size_B (blocks s (last (map fst L)))) =
           unat (heap_base s) + unat (heap_total_size s)"
    using laid_out_last[OF lo ne] sz[of "last L"] ne by (simp add: hdr_sz_32 last_map)
  show ?thesis unfolding tiles_def using ne 1 2 3 by simp
qed

lemma rep_no_adjacent_free:
  assumes r: "rep s L"
  shows "no_adjacent_free s"
  unfolding no_adjacent_free_def
proof (intro allI impI)
  fix as i
  assume w: "walk (blocks s) (head s) as" and i: "Suc i < length as"
  have as: "as = map fst L" using rep_walk_eq[OF r] w by simp
  have h: "hdrs (blocks s) 0 L 0" and su: "successively (\<lambda>x y. \<not> both_free x y) L"
    using r by (simp_all add: rep_def)
  have il: "Suc i < length L" using i as by simp
  have "\<not> both_free (L ! i) (L ! Suc i)"
    using su il by (simp add: successively_conv_nth)
  moreover have "free_B (blocks s (fst (L ! i))) = snd (snd (L ! i))"
    "free_B (blocks s (fst (L ! Suc i))) = snd (snd (L ! Suc i))"
    using hdrs_mem[OF h, of "L ! i"] hdrs_mem[OF h, of "L ! Suc i"] il by simp_all
  ultimately show "\<not> (free_B (blocks s (as ! i)) \<and> free_B (blocks s (as ! Suc i)))"
    using as il by (simp add: both_free_def)
qed

lemma init_rep:
  assumes "\<not> initialized s0" "init_allocator sys s0 n = Inr s"
    "fresh_buffer (sys (align_up n ALIGNMENT)) (align_up n ALIGNMENT)"
    "hdr_sz \<le> align_up n ALIGNMENT"
  shows "rep s [(sys (align_up n ALIGNMENT), align_up n ALIGNMENT - hdr_sz, True)]"
proof -
  let ?t = "align_up n ALIGNMENT"
  have "unat (?t - hdr_sz) = unat ?t - 32"
    using assms(4) by (simp add: hdr_sz_32 unat_sub)
  moreover have "32 \<le> unat ?t" using assms(4) by (simp add: hdr_sz_32 word_le_nat_alt)
  ultimately show ?thesis using assms
    by (auto simp: rep_def init_allocator_def Let_def fresh_buffer_def split: if_splits)
qed

section \<open>Allocation splits one block of the list\<close>

lemma split_block_allocated: "\<not> free_B (B b) \<Longrightarrow> split_block B b asize = B"
  by (simp add: split_block_def)

lemma set_free_same: "free_B (B b) = f \<Longrightarrow> set_free B b f = B"
  by (auto simp: set_free_def)

lemma a_split_addrs: "fst x \<in> fst ` set (a_split x asize)"
  by (simp add: a_split_def)

lemma split_block_hdrs:
  assumes h: "hdrs B 0 (xs @ (b, sz, True) # ys) 0"
    and lo: "laid_out base (xs @ (b, sz, True) # ys) lim"
    and lim: "lim < 2 ^ 64" and base: "0 < base"
    and sz: "unat sz + 64 < 2 ^ 64"
    and le: "asize \<le> sz"
  shows "hdrs (split_block B b asize) 0 (xs @ a_split (b, sz, True) asize @ ys) 0"
proof -
  have Bb: "B b = \<lparr>size_B = sz, free_B = True, next_B = first_addr ys 0, prev_B = last_addr 0 xs\<rparr>"
    and hx: "hdrs B 0 xs b" and hy: "hdrs B b ys 0"
    using h by (auto simp: hdrs_append)
  have d: "distinct (map fst (xs @ (b, sz, True) # ys))" using laid_out_distinct[OF lo] .
  then have bx: "b \<notin> fst ` set xs" and by': "b \<notin> fst ` set ys" by auto
  have as64: "unat asize + 64 < 2 ^ 64" using le sz by (simp add: word_le_nat_alt)
  show ?thesis
  proof (cases "unat asize + 64 \<le> unat sz")
    case False
    then have "split_block B b asize = B(b := (B b)\<lparr>free_B := False\<rparr>)"
      by (simp add: split_block_def Bb split_cond[OF as64] set_free_def)
    with False show ?thesis using hx hy bx by'
      by (simp add: a_split_def hdrs_append hdrs_frame Bb)
  next
    case True
    define newb where "newb = b + hdr_sz + asize"
    define nb where "nb = first_addr ys 0"
    obtain mid where lx: "laid_out base xs mid" and lb: "unat b = mid" 
      and ly: "laid_out (mid + 32 + unat sz) ys lim"
      using lo by (auto simp: laid_out_append)
    have endb: "mid + 32 + unat sz \<le> lim" using laid_out_le[OF ly] .
    have un: "unat newb = unat b + 32 + unat asize"
      unfolding newb_def hdr_sz_32 using lb endb lim True
      by (simp add: unat_plus)
    have nx: "newb \<notin> fst ` set xs"
    proof
      assume "newb \<in> fst ` set xs"
      then obtain y where y: "y \<in> set xs" "fst y = newb" by auto
      from laid_out_bounds[OF lx y(1)] y(2) un lb show False by simp
    qed
    have ny: "newb \<notin> fst ` set ys"
    proof
      assume "newb \<in> fst ` set ys"
      then obtain y where y: "y \<in> set ys" "fst y = newb" by auto
      from laid_out_bounds[OF ly y(1)] y(2) un lb True show False by simp
    qed
    have nbn: "newb \<noteq> b" using un by auto
    have b0: "b \<noteq> 0" using lb laid_out_le[OF lx] base by auto
    have n0: "newb \<noteq> 0" using un lb laid_out_le[OF lx] base by auto
    have nbb: "nb \<noteq> b" "nb \<noteq> newb"
      using by' ny b0 n0 by (cases ys; auto simp: nb_def)+
    have eq: "split_block B b asize =
      (if nb \<noteq> 0 then B(newb := \<lparr>size_B = sz - asize - hdr_sz, free_B = True, next_B = nb, prev_B = b\<rparr>,
          nb := (B nb)\<lparr>prev_B := newb\<rparr>,
          b := \<lparr>size_B = asize, free_B = False, next_B = newb, prev_B = last_addr 0 xs\<rparr>)
       else B(newb := \<lparr>size_B = sz - asize - hdr_sz, free_B = True, next_B = nb, prev_B = b\<rparr>,
          b := \<lparr>size_B = asize, free_B = False, next_B = newb, prev_B = last_addr 0 xs\<rparr>))"
      using True nbn nbb
      by (auto simp add: split_block_def Bb split_cond[OF as64] set_free_def set_size_def set_next_def
           set_prev_def newb_def[symmetric] nb_def[symmetric] Let_def fun_upd_twist)
    show ?thesis
    proof (cases ys)
      case Nil
      then show ?thesis using True hx bx nx nbn
        by (simp add: eq nb_def a_split_def hdrs_append hdrs_frame newb_def[symmetric])
    next
      case (Cons y ys')
      then have nb: "nb = fst y" by (simp add: nb_def)
      have yy: "fst y \<notin> fst ` set ys'" "fst y \<notin> fst ` set xs" using d Cons by auto
      have y0: "fst y \<noteq> 0" using laid_out_bounds[OF ly, of y] Cons lb laid_out_le[OF lx] base by auto
      show ?thesis using True hx hy bx nx ny by' nbn nbb Cons nb yy y0 b0 n0
        by (simp add: eq a_split_def hdrs_append hdrs_frame newb_def[symmetric])
    qed
  qed
qed

lemma split_laid_out:
  assumes lo: "laid_out base (xs @ (b, sz, f) # ys) lim"
    and lim: "lim < 2 ^ 64"
  shows "laid_out base (xs @ a_split (b, sz, f) asize @ ys) lim"
proof (cases "unat asize + 64 \<le> unat sz")
  case False
  then show ?thesis using lo by (simp add: a_split_def laid_out_append)
next
  case True
  obtain mid where lx: "laid_out base xs mid" and lb: "unat b = mid" 
      and ly: "laid_out (mid + 32 + unat sz) ys lim"
      using lo by (auto simp: laid_out_append)
  have endb: "mid + 32 + unat sz \<le> lim" using laid_out_le[OF ly] .
  have un: "unat (b + hdr_sz + asize) = mid + 32 + unat asize"
    unfolding hdr_sz_32 using lb endb lim True
    by (simp add: unat_plus)
  have us: "unat (sz - asize - hdr_sz) = unat sz - unat asize - 32"
    unfolding hdr_sz_32 using True by (simp add: unat_minus)
  have pe: "mid + 32 + unat asize + 32 + unat (sz - asize - hdr_sz) = mid + 32 + unat sz"
    using us True by linarith
  have "laid_out mid ((b, asize, False) # (b + hdr_sz + asize, sz - asize - hdr_sz, True) # ys) lim"
    using lb un ly by (simp only: laid_out.simps fst_conv snd_conv pe simp_thms)
  then have "laid_out mid (a_split (b, sz, f) asize @ ys) lim"
    using True by (simp add: a_split_def)
  with lx show ?thesis by (auto simp: laid_out_append)
qed

lemma split_successively:
  assumes "successively (\<lambda>x y. \<not> both_free x y) (xs @ (b, sz, True) # ys)"
  shows "successively (\<lambda>x y. \<not> both_free x y) (xs @ a_split (b, sz, True) asize @ ys)"
  using assms
  by (cases ys; cases xs rule: rev_cases)
     (auto simp: a_split_def successively_append_iff successively_Cons both_free_def)

lemma split_rep:
  assumes r: "rep s (xs @ (b, sz, True) # ys)" and le: "asize \<le> sz"
  shows "rep (s\<lparr>blocks := split_block (blocks s) b asize\<rparr>) (xs @ a_split (b, sz, True) asize @ ys)"
proof -
  let ?L = "xs @ (b, sz, True) # ys"
  have h: "hdrs (blocks s) 0 ?L 0" using r by (simp add: rep_def)
  have lo: "laid_out (unat (heap_base s)) ?L (unat (heap_base s) + unat (heap_total_size s))"
    using r by (simp add: rep_def)
  have su: "successively (\<lambda>x y. \<not> both_free x y) ?L" using r by (simp add: rep_def)
  have s64: "unat sz + 64 < 2 ^ 64" using rep_facts(3)[OF r, of "(b, sz, True)"] by simp
  show ?thesis
    unfolding rep_def
    using split_block_hdrs[OF h lo rep_facts(2)[OF r] rep_facts(1)[OF r] s64 le]
      split_laid_out[OF lo rep_facts(2)[OF r], of asize] split_successively[OF su, of asize] r
    by (auto simp: rep_def a_split_def)
qed

lemma find_fit_hdrs:
  "hdrs B pv L 0 \<Longrightarrow> 0 \<notin> fst ` set L \<Longrightarrow>
   find_fit B (first_addr L 0) asize =
     Some (case find (fits asize) L of None \<Rightarrow> 0 | Some x \<Rightarrow> fst x)"
proof (induction L arbitrary: pv)
  case Nil
  then show ?case by (simp add: find_fit.simps)
next
  case (Cons x L)
  then have IH: "find_fit B (first_addr L 0) asize =
     Some (case find (fits asize) L of None \<Rightarrow> 0 | Some x \<Rightarrow> fst x)"
    and Bx: "B (fst x) = \<lparr>size_B = fst (snd x), free_B = snd (snd x), next_B = first_addr L 0, prev_B = pv\<rparr>"
    and x0: "fst x \<noteq> 0"
    by auto
  show ?case
    by (subst find_fit.simps) (simp add: x0 Bx IH fits_def)
qed

lemma malloc_rep:
  assumes r: "rep s L" and sz: "sz \<noteq> 0"
  shows "case find (fits (request_size sz)) L of
           None \<Rightarrow> malloc sys s sz = Inr (0, s)
         | Some x \<Rightarrow>
             (\<exists>xs ys. L = xs @ x # ys \<and> (\<forall>y\<in>set xs. \<not> fits (request_size sz) y) \<and>
                fits (request_size sz) x \<and>
                malloc sys s sz =
                  Inr (fst x + hdr_sz, s\<lparr>blocks := split_block (blocks s) (fst x) (request_size sz)\<rparr>) \<and>
                rep (s\<lparr>blocks := split_block (blocks s) (fst x) (request_size sz)\<rparr>)
                    (xs @ a_split x (request_size sz) @ ys))"
proof -
  let ?a = "request_size sz"
  have ff: "find_fit (blocks s) (head s) ?a =
     Some (case find (fits ?a) L of None \<Rightarrow> 0 | Some x \<Rightarrow> fst x)"
    using r find_fit_hdrs[of "blocks s" 0 L ?a] rep_facts(4)[OF r] by (simp add: rep_def)
  have ini: "initialized s" using r by (simp add: rep_def)
  show ?thesis
  proof (cases "find (fits ?a) L")
    case None
    then show ?thesis using ff ini sz by (simp add: malloc_def)
  next
    case (Some x)
    then obtain i where i: "i < length L" "L ! i = x" "\<forall>j<i. \<not> fits ?a (L ! j)"
      and fx: "fits ?a x"
      by (auto simp: find_Some_iff)
    define xs ys where "xs = take i L" and "ys = drop (Suc i) L"
    have L: "L = xs @ x # ys" using id_take_nth_drop[OF i(1)] i(2) by (simp add: xs_def ys_def)
    have nx: "\<forall>y\<in>set xs. \<not> fits ?a y"
    proof
      fix y assume "y \<in> set xs"
      then obtain j where "j < i" "y = L ! j" using i(1) by (auto simp: xs_def in_set_conv_nth)
      with i(3) show "\<not> fits ?a y" by simp
    qed
    have "snd (snd x)" using fx by (simp add: fits_def)
    then obtain b bs where x: "x = (b, bs, True)" by (cases x) auto
    have le: "?a \<le> bs" using fx x by (simp add: fits_def)
    have xin: "x \<in> set L" using L by simp
    have b0: "b \<noteq> 0" using rep_facts(4)[OF r] xin x by force
    let ?s' = "s\<lparr>blocks := split_block (blocks s) b ?a\<rparr>"
    have m: "malloc sys s sz = Inr (b + hdr_sz, ?s')"
      using ff ini sz Some x b0 by (simp add: malloc_def block_to_payload_def)
    have h: "hdrs (blocks s) 0 (xs @ (b, bs, True) # ys) 0" using r L x by (simp add: rep_def)
    have lo: "laid_out (unat (heap_base s)) (xs @ (b, bs, True) # ys)
               (unat (heap_base s) + unat (heap_total_size s))" using r L x by (simp add: rep_def)
    have su: "successively (\<lambda>x y. \<not> both_free x y) (xs @ (b, bs, True) # ys)"
      using r L x by (simp add: rep_def)
    have bs64: "unat bs + 64 < 2 ^ 64" using rep_facts(3)[OF r xin] x by simp
    have "rep ?s' (xs @ a_split x ?a @ ys)"
      unfolding rep_def
      using split_block_hdrs[OF h lo rep_facts(2)[OF r] rep_facts(1)[OF r] bs64 le]
        split_laid_out[OF lo rep_facts(2)[OF r], of ?a] split_successively[OF su, of ?a] r
      by (auto simp: rep_def x L a_split_def)
    with m L nx fx Some x show ?thesis by auto
  qed
qed

lemma malloc_rep_ex:
  assumes r: "rep s L"
  shows "\<exists>p s' L'. malloc sys s n = Inr (p, s') \<and> rep s' L'"
proof (cases "n = 0")
  case True
  with r show ?thesis by (auto simp: malloc_def)
next
  case False
  from malloc_rep[OF r False, of sys] r show ?thesis
    by (auto split: option.splits)
qed

lemma malloc_success:
  assumes r: "rep s L" and m: "malloc sys s sz = Inr (p, s')" and p: "p \<noteq> 0"
  shows "\<exists>xs ys b bs. L = xs @ (b, bs, True) # ys \<and> request_size sz \<le> bs \<and>
           (\<forall>y\<in>set xs. \<not> fits (request_size sz) y) \<and>
           p = b + hdr_sz \<and> payload_to_block p = b \<and>
           s' = s\<lparr>blocks := split_block (blocks s) b (request_size sz)\<rparr> \<and>
           rep s' (xs @ a_split (b, bs, True) (request_size sz) @ ys)"
proof -
  have sz: "sz \<noteq> 0" using m p by (auto simp: malloc_def)
  show ?thesis
  proof (cases "find (fits (request_size sz)) L")
    case None
    with malloc_rep[OF r sz, of sys] m p show ?thesis by simp
  next
    case (Some x)
    with malloc_rep[OF r sz, of sys] obtain xs ys where
        L: "L = xs @ x # ys" and nx: "\<forall>y\<in>set xs. \<not> fits (request_size sz) y"
        and fx: "fits (request_size sz) x"
        and m': "malloc sys s sz =
            Inr (fst x + hdr_sz, s\<lparr>blocks := split_block (blocks s) (fst x) (request_size sz)\<rparr>)"
        and r': "rep (s\<lparr>blocks := split_block (blocks s) (fst x) (request_size sz)\<rparr>)
                    (xs @ a_split x (request_size sz) @ ys)"
      by auto
    obtain b bs where x: "x = (b, bs, True)" using fx by (cases x) (auto simp: fits_def)
    have "payload_to_block (b + hdr_sz) = b"
      using m m' p x by (auto simp: payload_to_block_def)
    with L nx fx m m' r' x show ?thesis by (auto simp: fits_def)
  qed
qed

lemma malloc_null:
  assumes r: "rep s L" and m: "malloc sys s n = Inr (0, s1)"
  shows "s1 = s"
proof (cases "n = 0")
  case True
  with m show ?thesis by (simp add: malloc_def)
next
  case False
  show ?thesis
  proof (cases "find (fits (request_size n)) L")
    case None
    with malloc_rep[OF r False, of sys] m show ?thesis by simp
  next
    case (Some x)
    with malloc_rep[OF r False, of sys] obtain xs ys where
      "L = xs @ x # ys" "malloc sys s n = Inr (fst x + hdr_sz,
          s\<lparr>blocks := split_block (blocks s) (fst x) (request_size n)\<rparr>)" by auto
    with m rep_payload_nonzero(1)[OF r, of x] show ?thesis by simp
  qed
qed

lemma malloc_initialises:
  assumes "\<not> initialized s" "sz \<noteq> 0"
  shows "malloc sys s sz =
     (case init_allocator sys s DEFAULT_HEAP_SIZE of
        Inl e \<Rightarrow> Inl e | Inr s1 \<Rightarrow> malloc sys s1 sz)"
proof (cases "init_allocator sys s DEFAULT_HEAP_SIZE")
  case (Inl e)
  with assms show ?thesis by (simp add: malloc_def)
next
  case (Inr s1)
  then have "initialized s1" using assms(1)
    by (auto simp: init_allocator_def Let_def split: if_splits)
  with Inr assms show ?thesis by (simp add: malloc_def)
qed

section \<open>Release merges neighbours of the list\<close>

lemma coalesce_absorb:
  "coalesce B b =
     (let B' = (if next_B (B b) \<noteq> 0 \<and> free_B (B (next_B (B b)))
                then absorb B b (next_B (B b)) else B)
      in if prev_B (B' b) \<noteq> 0 \<and> free_B (B' (prev_B (B' b)))
         then (prev_B (B' b), absorb B' (prev_B (B' b)) b) else (b, B'))"
  by (simp add: coalesce_def absorb_def Let_def)

lemma absorb_keeps_free: "free_B (absorb B a n x) = free_B (B x)"
  by (simp add: absorb_def Let_def set_size_def set_next_def set_prev_def)

lemma absorb_hdrs:
  assumes h: "hdrs B pv0 (xs @ (a, sz, f) # (n, nsz, nf) # zs) 0"
    and d: "distinct (map fst (xs @ (a, sz, f) # (n, nsz, nf) # zs))"
    and z: "0 \<notin> fst ` set (xs @ (a, sz, f) # (n, nsz, nf) # zs)"
  shows "hdrs (absorb B a n) pv0 (xs @ (a, sz + (hdr_sz + nsz), f) # zs) 0"
proof -
  have Ba: "B a = \<lparr>size_B = sz, free_B = f, next_B = n, prev_B = last_addr pv0 xs\<rparr>"
    and Bn: "B n = \<lparr>size_B = nsz, free_B = nf, next_B = first_addr zs 0, prev_B = a\<rparr>"
    and hx: "hdrs B pv0 xs a" and hz: "hdrs B n zs 0"
    using h by (auto simp: hdrs_append)
  have na: "n \<noteq> a" "a \<notin> fst ` set xs" "a \<notin> fst ` set zs" using d by auto
  show ?thesis
  proof (cases zs)
    case Nil
    then have "absorb B a n = B(a := \<lparr>size_B = sz + (hdr_sz + nsz), free_B = f, next_B = 0,
                 prev_B = last_addr pv0 xs\<rparr>)"
      using na by (simp add: absorb_def Let_def set_size_def set_next_def Ba Bn)
    then show ?thesis using Nil hx na by (simp add: hdrs_append hdrs_frame)
  next
    case (Cons y zs')
    have y: "fst y \<noteq> 0" "fst y \<noteq> a" "fst y \<noteq> n" "fst y \<notin> fst ` set xs" "fst y \<notin> fst ` set zs'"
      using d z Cons by auto
    have By: "B (fst y) = \<lparr>size_B = fst (snd y), free_B = snd (snd y), next_B = first_addr zs' 0,
                 prev_B = n\<rparr>" and hz': "hdrs B (fst y) zs' 0"
      using hz Cons by auto
    have "absorb B a n = B(a := \<lparr>size_B = sz + (hdr_sz + nsz), free_B = f, next_B = fst y,
                 prev_B = last_addr pv0 xs\<rparr>, fst y := (B (fst y))\<lparr>prev_B := a\<rparr>)"
      using na y Cons by (simp add: absorb_def Let_def set_size_def set_next_def set_prev_def Ba Bn)
    then show ?thesis using Cons hx hz' na y By
      by (simp add: hdrs_append hdrs_frame)
  qed
qed

lemma absorb_laid_out:
  assumes lo: "laid_out pos (xs @ (a, sz, f) # (n, nsz, nf) # zs) lim" and lim: "lim < 2 ^ 64"
  shows "laid_out pos (xs @ (a, sz + (hdr_sz + nsz), f) # zs) lim"
proof -
  obtain mid where lx: "laid_out pos xs mid" and la: "unat a = mid"
    and lz: "laid_out (mid + 32 + unat sz + 32 + unat nsz) zs lim"
    using lo by (auto simp: laid_out_append)
  have "mid + 32 + unat sz + 32 + unat nsz \<le> lim" using laid_out_le[OF lz] .
  with lim have "unat sz + (32 + unat nsz) < 2 ^ 64" by simp
  then have "unat (sz + (hdr_sz + nsz)) = unat sz + 32 + unat nsz"
    unfolding hdr_sz_32 using unat_plus[of 32 nsz] unat_plus[of sz "32 + nsz"] by simp
  then have pe: "mid + 32 + unat (sz + (hdr_sz + nsz)) = mid + 32 + unat sz + 32 + unat nsz"
    by simp
  have "laid_out mid ((a, sz + (hdr_sz + nsz), f) # zs) lim"
    using la lz by (simp only: laid_out.simps fst_conv snd_conv pe simp_thms)
  with lx show ?thesis by (auto simp: laid_out_append)
qed

lemma set_free_hdrs:
  assumes "hdrs B pv (xs @ (b, sz, f) # ys) e" "distinct (map fst (xs @ (b, sz, f) # ys))"
  shows "hdrs (set_free B b f') pv (xs @ (b, sz, f') # ys) e"
  using assms by (auto simp: hdrs_append set_free_def hdrs_frame)

lemma coalesce_hdrs:
  assumes h: "hdrs B 0 (xs @ (b, sz, True) # ys) 0"
    and lo: "laid_out base (xs @ (b, sz, True) # ys) lim"
    and lim: "lim < 2 ^ 64" and base: "0 < base"
    and su: "successively (\<lambda>x y. \<not> both_free x y) (xs @ (b, sz, False) # ys)"
  shows "\<exists>L'. L' \<noteq> [] \<and> first_addr L' 0 = first_addr (xs @ (b, sz, True) # ys) 0 \<and>
           hdrs (snd (coalesce B b)) 0 L' 0 \<and> laid_out base L' lim \<and>
           successively (\<lambda>x y. \<not> both_free x y) L'"
proof -
  let ?P = "successively (\<lambda>x y. \<not> both_free x y)"
  define B1 where "B1 = (if next_B (B b) \<noteq> 0 \<and> free_B (B (next_B (B b)))
                then absorb B b (next_B (B b)) else B)"
  have Bb: "B b = \<lparr>size_B = sz, free_B = True, next_B = first_addr ys 0, prev_B = last_addr 0 xs\<rparr>"
    using h by (auto simp: hdrs_append)
  note wf = laid_out_wf[OF lo base]
  have "\<exists>sz1 ys1. hdrs B1 0 (xs @ (b, sz1, True) # ys1) 0 \<and>
          laid_out base (xs @ (b, sz1, True) # ys1) lim \<and>
          ?P (xs @ (b, sz1, False) # ys1) \<and> (ys1 = [] \<or> \<not> snd (snd (hd ys1)))"
  proof (cases ys)
    case Nil
    then have "B1 = B" by (simp add: B1_def Bb)
    with h lo su Nil show ?thesis
      by (intro exI[of _ sz] exI[of _ "[]"]) auto
  next
    case (Cons y zs)
    obtain n nsz nf where y: "y = (n, nsz, nf)" by (cases y) auto
    have n0: "n \<noteq> 0" using wf(2) Cons y by auto
    have Bn: "free_B (B n) = nf" using h Cons y by (auto simp: hdrs_append)
    show ?thesis
    proof (cases nf)
      case False
      then have "B1 = B" using Bn by (simp add: B1_def Bb Cons y)
      with h lo su Cons y False show ?thesis
        by (intro exI[of _ sz] exI[of _ ys]) auto
    next
      case True
      then have B1: "B1 = absorb B b n" using Bn n0 by (simp add: B1_def Bb Cons y)
      have 1: "hdrs B1 0 (xs @ (b, sz + (hdr_sz + nsz), True) # zs) 0"
        unfolding B1 using absorb_hdrs[of B 0 xs b sz True n nsz nf zs] h wf Cons y by simp
      have 2: "laid_out base (xs @ (b, sz + (hdr_sz + nsz), True) # zs) lim"
        using absorb_laid_out[of base xs b sz True n nsz nf zs lim] lo lim Cons y by simp
      have 3: "?P (xs @ (b, sz + (hdr_sz + nsz), False) # zs)"
        using su Cons y True
        by (cases zs; cases xs rule: rev_cases)
           (auto simp: successively_append_iff successively_Cons both_free_def)
      have 4: "zs = [] \<or> \<not> snd (snd (hd zs))"
        using su Cons y True
        by (cases zs) (auto simp: successively_append_iff successively_Cons both_free_def)
      from 1 2 3 4 show ?thesis by blast
    qed
  qed
  then obtain sz1 ys1 where h1: "hdrs B1 0 (xs @ (b, sz1, True) # ys1) 0"
    and lo1: "laid_out base (xs @ (b, sz1, True) # ys1) lim"
    and su1: "?P (xs @ (b, sz1, False) # ys1)"
    and nf1: "ys1 = [] \<or> \<not> snd (snd (hd ys1))"
    by blast
  have co: "coalesce B b =
    (if prev_B (B1 b) \<noteq> 0 \<and> free_B (B1 (prev_B (B1 b)))
     then (prev_B (B1 b), absorb B1 (prev_B (B1 b)) b) else (b, B1))"
    by (simp add: coalesce_absorb B1_def Let_def)
  have B1b: "B1 b = \<lparr>size_B = sz1, free_B = True, next_B = first_addr ys1 0, prev_B = last_addr 0 xs\<rparr>"
    using h1 by (auto simp: hdrs_append)
  note wf1 = laid_out_wf[OF lo1 base]
  have keep: "?P (xs @ (b, sz1, True) # ys1)" if "xs = [] \<or> \<not> snd (snd (last xs))"
    using su1 nf1 that
    by (cases ys1; cases xs rule: rev_cases)
       (auto simp: successively_append_iff successively_Cons both_free_def)
  show ?thesis
  proof (cases xs rule: rev_cases)
    case Nil
    then have "coalesce B b = (b, B1)" by (simp add: co B1b)
    with h1 lo1 keep Nil show ?thesis
      by (intro exI[of _ "xs @ (b, sz1, True) # ys1"]) auto
  next
    case (snoc ws p)
    obtain pv psz pf where p: "p = (pv, psz, pf)" by (cases p) auto
    have pv0: "pv \<noteq> 0" using wf1(2) snoc p by auto
    have Bp: "free_B (B1 pv) = pf" using h1 snoc p by (auto simp: hdrs_append)
    show ?thesis
    proof (cases pf)
      case False
      then have "coalesce B b = (b, B1)" using Bp by (simp add: co B1b snoc p)
      with h1 lo1 keep snoc p False show ?thesis
        by (intro exI[of _ "xs @ (b, sz1, True) # ys1"]) auto
    next
      case True
      then have c: "coalesce B b = (pv, absorb B1 pv b)" using Bp pv0 by (simp add: co B1b snoc p)
      have 1: "hdrs (absorb B1 pv b) 0 (ws @ (pv, psz + (hdr_sz + sz1), True) # ys1) 0"
        using absorb_hdrs[of B1 0 ws pv psz True b sz1 True ys1] h1 wf1 snoc p True by simp
      have 2: "laid_out base (ws @ (pv, psz + (hdr_sz + sz1), True) # ys1) lim"
        using absorb_laid_out[of base ws pv psz True b sz1 True ys1 lim] lo1 lim snoc p True by simp
      have 3: "?P (ws @ (pv, psz + (hdr_sz + sz1), True) # ys1)"
        using su1 nf1 snoc p True
        by (cases ys1; cases ws rule: rev_cases)
           (auto simp: successively_append_iff successively_Cons both_free_def)
      have 4: "first_addr (ws @ (pv, psz + (hdr_sz + sz1), True) # ys1) 0 =
               first_addr (xs @ (b, sz, True) # ys) 0"
        using snoc p by (cases ws) auto
      from c 1 2 3 4 show ?thesis
        by (intro exI[of _ "ws @ (pv, psz + (hdr_sz + sz1), True) # ys1"]) auto
    qed
  qed
qed

lemma free_rep:
  assumes r: "rep s L"
    and p: "ptr = 0 \<or> \<not> pointer_in_heap s ptr \<or> payload_to_block ptr \<in> fst ` set L"
  shows "\<exists>L'. rep (snd (free s ptr)) L'"
proof (cases "snd (free s ptr) = s")
  case True
  with r show ?thesis by auto
next
  case False
  define b where "b = payload_to_block ptr"
  have ini: "initialized s" using r by (simp add: rep_def)
  from False have nz: "ptr \<noteq> 0" and inh: "\<not> (ptr < heap_base s \<or> heap_base s + heap_total_size s \<le> ptr)"
    and nf: "\<not> free_B (blocks s b)"
    and fr: "snd (free s ptr) = s\<lparr>blocks := snd (coalesce (set_free (blocks s) b True) b)\<rparr>"
    by (auto simp: free_def Let_def b_def split: if_splits)
  have "pointer_in_heap s ptr" using nz inh ini by (auto simp: pointer_in_heap_def)
  with p nz have bin: "b \<in> fst ` set L" by (simp add: b_def)
  then obtain x where x: "x \<in> set L" "fst x = b" by auto
  have h: "hdrs (blocks s) 0 L 0" using r by (simp add: rep_def)
  from hdrs_mem[OF h x(1)] nf x(2) have "\<not> snd (snd x)" by simp
  then obtain sz where xe: "x = (b, sz, False)" using x(2) by (cases x) auto
  from x(1) xe obtain xs ys where L: "L = xs @ (b, sz, False) # ys" by (auto simp: in_set_conv_decomp)
  let ?lim = "unat (heap_base s) + unat (heap_total_size s)"
  have lo: "laid_out (unat (heap_base s)) (xs @ (b, sz, True) # ys) ?lim"
    using r L laid_out_flag[of _ xs b sz False ys _ True] by (simp add: rep_def)
  have h1: "hdrs (set_free (blocks s) b True) 0 (xs @ (b, sz, True) # ys) 0"
    using set_free_hdrs[of "blocks s" 0 xs b sz False ys 0 True] h L rep_facts(5)[OF r] by simp
  have su: "successively (\<lambda>x y. \<not> both_free x y) (xs @ (b, sz, False) # ys)"
    using r L by (simp add: rep_def)
  from coalesce_hdrs[OF h1 lo rep_facts(2)[OF r] rep_facts(1)[OF r] su]
  obtain L' where L': "L' \<noteq> []" "first_addr L' 0 = first_addr (xs @ (b, sz, True) # ys) 0"
     "hdrs (snd (coalesce (set_free (blocks s) b True) b)) 0 L' 0"
     "laid_out (unat (heap_base s)) L' ?lim" "successively (\<lambda>x y. \<not> both_free x y) L'"
    by blast
  have "first_addr (xs @ (b, sz, True) # ys) 0 = first_addr L 0" unfolding L by (cases xs) auto
  with L' r have "rep (snd (free s ptr)) L'" unfolding fr by (simp add: rep_def)
  then show ?thesis ..
qed

lemma free_twice: "snd (free (snd (free s ptr)) ptr) = snd (free s ptr)"
proof (cases "snd (free s ptr) = s")
  case True
  then show ?thesis by simp
next
  case False
  let ?b = "payload_to_block ptr"
  from False have fr: "snd (free s ptr) = s\<lparr>blocks := snd (coalesce (set_free (blocks s) ?b True) ?b)\<rparr>"
    by (auto simp: free_def Let_def split: if_splits)
  have "free_B (snd (coalesce B ?b) ?b) = free_B (B ?b)" for B
    by (simp add: coalesce_def Let_def set_size_def set_next_def set_prev_def)
  then have "free_B (blocks (snd (free s ptr)) ?b)"
    unfolding fr by (simp add: set_free_def)
  then show ?thesis by (simp add: free_def[of "snd (free s ptr)"] Let_def)
qed

lemma free_twice_report:
  assumes "ptr \<noteq> 0" "fst (free s ptr) = []"
  shows "fst (free (snd (free s ptr)) ptr) = [Double_free ptr]"
proof -
  let ?b = "payload_to_block ptr"
  let ?s' = "s\<lparr>blocks := snd (coalesce (set_free (blocks s) ?b True) ?b)\<rparr>"
  from assms have a: "\<not> (ptr < heap_base s \<or> heap_base s + heap_total_size s \<le> ptr)"
     "\<not> (?b < heap_base s \<or> heap_base s + heap_total_size s \<le> ?b)"
     and fr: "snd (free s ptr) = ?s'"
    by (auto simp: free_def Let_def split: if_splits)
  have "free_B (snd (coalesce B ?b) ?b) = free_B (B ?b)" for B
    by (simp add: coalesce_def Let_def set_size_def set_next_def set_prev_def)
  then have "free_B (blocks ?s' ?b)" by (simp add: set_free_def)
  then show ?thesis unfolding fr using assms(1) a by (simp add: free_def[of ?s'] Let_def)
qed

section \<open>Resizing keeps the list representation\<close>

lemma realloc_grow:
  assumes "ptr \<noteq> 0" "n \<noteq> 0" "pointer_in_heap s ptr"
    and "\<not> request_size n \<le> size_B (blocks s (payload_to_block ptr))"
    and "next_B (blocks s (payload_to_block ptr)) \<noteq> 0"
    and "free_B (blocks s (next_B (blocks s (payload_to_block ptr))))"
    and "request_size n \<le> size_B (blocks s (payload_to_block ptr)) + hdr_sz +
           size_B (blocks s (next_B (blocks s (payload_to_block ptr))))"
  shows "realloc sys s ptr n =
     Inr (ptr, [], s\<lparr>blocks := set_free (split_block
        (absorb (blocks s) (payload_to_block ptr) (next_B (blocks s (payload_to_block ptr))))
        (payload_to_block ptr) (request_size n)) (payload_to_block ptr) False\<rparr>)"
  using assms by (simp add: realloc_def absorb_def Let_def add.assoc)

lemma realloc_move:
  assumes "ptr \<noteq> 0" "n \<noteq> 0" "pointer_in_heap s ptr"
    and "\<not> request_size n \<le> size_B (blocks s (payload_to_block ptr))"
    and "\<not> (next_B (blocks s (payload_to_block ptr)) \<noteq> 0 \<and>
            free_B (blocks s (next_B (blocks s (payload_to_block ptr)))) \<and>
            request_size n \<le> size_B (blocks s (payload_to_block ptr)) + hdr_sz +
              size_B (blocks s (next_B (blocks s (payload_to_block ptr)))))"
  shows "realloc sys s ptr n =
        (case malloc sys s n of
               Inl e \<Rightarrow> Inl e
             | Inr (newp, s1) \<Rightarrow>
                 if newp = 0 then Inr (0, [], s1)
                 else
                   let k = min (size_B (blocks s1 (payload_to_block ptr))) (request_size n)
                   in if \<not> (within_heap s1 newp k \<and> within_heap s1 ptr k) then Inl Out_of_bounds
                      else
                        let s2 = s1\<lparr>bytes := memcpy_bytes (bytes s1) newp ptr k\<rparr>;
                            (d, s3) = free s2 ptr
                        in Inr (newp, d, s3))"
proof -
  let ?c = "next_B (blocks s (payload_to_block ptr)) \<noteq> 0 \<and>
            free_B (blocks s (next_B (blocks s (payload_to_block ptr)))) \<and>
            request_size n \<le> size_B (blocks s (payload_to_block ptr)) + hdr_sz +
              size_B (blocks s (next_B (blocks s (payload_to_block ptr))))"
  have c: "?c = False" using assms(5) by blast
  show ?thesis
    unfolding realloc_def Let_def
    by (simp only: c assms(1-4) if_False if_True not_True_eq_False not_False_eq_True simp_thms)
qed

lemma realloc_shrink_identity:
  assumes "ptr \<noteq> 0" "n \<noteq> 0" "pointer_in_heap s ptr"
    and "\<not> free_B (blocks s (payload_to_block ptr))"
    and "request_size n \<le> size_B (blocks s (payload_to_block ptr))"
  shows "realloc sys s ptr n = Inr (ptr, [], s)"
  using assms by (simp add: realloc_def Let_def split_block_allocated)

lemma realloc_grow_absorbs:
  assumes "ptr \<noteq> 0" "n \<noteq> 0" "pointer_in_heap s ptr"
    and "\<not> request_size n \<le> size_B (blocks s (payload_to_block ptr))"
    and "next_B (blocks s (payload_to_block ptr)) \<noteq> 0"
    and "free_B (blocks s (next_B (blocks s (payload_to_block ptr))))"
    and "request_size n \<le> size_B (blocks s (payload_to_block ptr)) + hdr_sz +
           size_B (blocks s (next_B (blocks s (payload_to_block ptr))))"
    and "\<not> free_B (blocks s (payload_to_block ptr))"
  shows "realloc sys s ptr n =
     Inr (ptr, [], s\<lparr>blocks := absorb (blocks s) (payload_to_block ptr)
                                 (next_B (blocks s (payload_to_block ptr)))\<rparr>)"
proof -
  let ?b = "payload_to_block ptr"
  let ?B = "absorb (blocks s) ?b (next_B (blocks s ?b))"
  have f: "\<not> free_B (?B ?b)" using assms(8) by (simp add: absorb_keeps_free)
  then have "set_free (split_block ?B ?b (request_size n)) ?b False = ?B"
    by (simp add: split_block_allocated set_free_same)
  with realloc_grow[OF assms(1-7), of sys] show ?thesis by simp
qed

lemma realloc_rep:
  assumes r: "rep s L"
    and p: "ptr = 0 \<or> \<not> pointer_in_heap s ptr \<or> payload_to_block ptr \<in> fst ` set L"
  shows "\<exists>q d s' L'. realloc sys s ptr n = Inr (q, d, s') \<and> rep s' L'"
proof -
  have ini: "initialized s" using r by (simp add: rep_def)
  have h: "hdrs (blocks s) 0 L 0" using r by (simp add: rep_def)
  let ?lim = "unat (heap_base s) + unat (heap_total_size s)"
  have lo: "laid_out (unat (heap_base s)) L ?lim" using r by (simp add: rep_def)
  consider (null) "ptr = 0" | (zero) "ptr \<noteq> 0" "n = 0"
    | (out) "ptr \<noteq> 0" "n \<noteq> 0" "\<not> pointer_in_heap s ptr"
    | (blk) "ptr \<noteq> 0" "n \<noteq> 0" "pointer_in_heap s ptr" by blast
  then show ?thesis
  proof cases
    case null
    show ?thesis
    proof (cases "n = 0")
      case True
      with null r show ?thesis by (auto simp: realloc_def malloc_def)
    next
      case False
      from malloc_rep[OF r False, of sys] null r show ?thesis
        by (auto simp: realloc_def split: option.splits)
    qed
  next
    case zero
    from free_rep[OF r p] zero show ?thesis
      by (cases "free s ptr") (auto simp: realloc_def)
  next
    case out
    with r show ?thesis by (auto simp: realloc_def)
  next
    case blk
    let ?b = "payload_to_block ptr"
    let ?a = "request_size n"
    from blk p have bin: "?b \<in> fst ` set L" by simp
    then obtain x where x: "x \<in> set L" "fst x = ?b" by auto
    obtain sz f where xe: "x = (?b, sz, f)" using x(2) by (cases x) auto
    from x(1) xe obtain xs ys where L: "L = xs @ (?b, sz, f) # ys"
      by (auto simp: in_set_conv_decomp)
    have Bb: "blocks s ?b = \<lparr>size_B = sz, free_B = f, next_B = first_addr ys 0, prev_B = last_addr 0 xs\<rparr>"
      using h L by (auto simp: hdrs_append)
    have pb: "?b + hdr_sz = ptr" using blk(1) by (simp add: payload_to_block_def)
    consider (shrink) "?a \<le> sz"
      | (grow) "\<not> ?a \<le> sz" "next_B (blocks s ?b) \<noteq> 0 \<and> free_B (blocks s (next_B (blocks s ?b))) \<and>
                   ?a \<le> size_B (blocks s ?b) + hdr_sz + size_B (blocks s (next_B (blocks s ?b)))"
      | (move) "\<not> ?a \<le> sz" "\<not> (next_B (blocks s ?b) \<noteq> 0 \<and> free_B (blocks s (next_B (blocks s ?b))) \<and>
                   ?a \<le> size_B (blocks s ?b) + hdr_sz + size_B (blocks s (next_B (blocks s ?b))))"
      by blast
    then show ?thesis
    proof cases
      case shrink
      then have re: "realloc sys s ptr n = Inr (ptr, [], s\<lparr>blocks := split_block (blocks s) ?b ?a\<rparr>)"
        using blk Bb by (simp add: realloc_def Let_def)
      show ?thesis
      proof (cases f)
        case False
        then have "split_block (blocks s) ?b ?a = blocks s" using Bb by (simp add: split_block_allocated)
        with re r show ?thesis by auto
      next
        case True
        from split_rep[of s xs ?b sz ys ?a] r L True shrink re show ?thesis by auto
      qed
    next
      case grow
      then obtain y zs where ys: "ys = y # zs" using Bb by (cases ys) auto
      obtain nb nsz nf where y: "y = (nb, nsz, nf)" by (cases y) auto
      have nxt: "next_B (blocks s ?b) = nb" using Bb ys y by simp
      have "free_B (blocks s nb) = nf" using h L ys y by (auto simp: hdrs_append)
      with grow nxt have nf: "nf = True" by simp
      have su: "successively (\<lambda>x y. \<not> both_free x y) L" using r by (simp add: rep_def)
      then have f: "f = False" using L ys y nf
        by (auto simp: successively_append_iff successively_Cons both_free_def)
      let ?B3 = "absorb (blocks s) ?b nb"
      have h3: "hdrs ?B3 0 (xs @ (?b, sz + (hdr_sz + nsz), False) # zs) 0"
        using absorb_hdrs[of "blocks s" 0 xs ?b sz False nb nsz nf zs] h L ys y f
          rep_facts(4,5)[OF r] by simp
      then have B3b: "\<not> free_B (?B3 ?b)" by (auto simp: hdrs_append)
      have re: "realloc sys s ptr n = Inr (ptr, [], s\<lparr>blocks := ?B3\<rparr>)"
        using realloc_grow[of ptr n s sys] blk grow Bb nxt B3b
        by (simp add: split_block_allocated set_free_same)
      have l3: "laid_out (unat (heap_base s)) (xs @ (?b, sz + (hdr_sz + nsz), False) # zs) ?lim"
        using absorb_laid_out[of "unat (heap_base s)" xs ?b sz False nb nsz nf zs ?lim] lo L ys y f
          rep_facts(2)[OF r] by simp
      have s3: "successively (\<lambda>x y. \<not> both_free x y) (xs @ (?b, sz + (hdr_sz + nsz), False) # zs)"
        using su L ys y f nf
        by (cases zs; cases xs rule: rev_cases)
           (auto simp: successively_append_iff successively_Cons both_free_def)
      have "first_addr (xs @ (?b, sz + (hdr_sz + nsz), False) # zs) 0 = first_addr L 0"
        unfolding L by (cases xs) auto
      with h3 l3 s3 r have "rep (s\<lparr>blocks := ?B3\<rparr>) (xs @ (?b, sz + (hdr_sz + nsz), False) # zs)"
        by (simp add: rep_def)
      with re show ?thesis by blast
    next
      case move
      have pre: "realloc sys s ptr n =
        (case malloc sys s n of
               Inl e \<Rightarrow> Inl e
             | Inr (newp, s1) \<Rightarrow>
                 if newp = 0 then Inr (0, [], s1)
                 else
                   let k = min (size_B (blocks s1 ?b)) ?a
                   in if \<not> (within_heap s1 newp k \<and> within_heap s1 ptr k) then Inl Out_of_bounds
                      else
                        let s2 = s1\<lparr>bytes := memcpy_bytes (bytes s1) newp ptr k\<rparr>;
                            (d, s3) = free s2 ptr
                        in Inr (newp, d, s3))"
        by (rule realloc_move[OF blk]) (use move Bb in simp_all)
      show ?thesis
      proof (cases "find (fits ?a) L")
        case None
        with malloc_rep[OF r blk(2), of sys] have "malloc sys s n = Inr (0, s)"
          by simp
        with pre r show ?thesis by auto
      next
        case (Some c)
        with malloc_rep[OF r blk(2), of sys] obtain cs ds where
          c: "L = cs @ c # ds" "fits ?a c"
           "malloc sys s n = Inr (fst c + hdr_sz, s\<lparr>blocks := split_block (blocks s) (fst c) ?a\<rparr>)"
           "rep (s\<lparr>blocks := split_block (blocks s) (fst c) ?a\<rparr>) (cs @ a_split c ?a @ ds)"
          by auto
        define s1 where "s1 = s\<lparr>blocks := split_block (blocks s) (fst c) ?a\<rparr>"
        define L1 where "L1 = cs @ a_split c ?a @ ds"
        define newp where "newp = fst c + hdr_sz"
        define k where "k = min (size_B (blocks s1 ?b)) ?a"
        have r1: "rep s1 L1" using c(4) by (simp add: s1_def L1_def)
        have "fst ` set L \<subseteq> fst ` set L1"
          unfolding c(1) L1_def using a_split_addrs[of c ?a]
          by (simp add: image_Un) blast
        with bin have bin1: "?b \<in> fst ` set L1" by blast
        have cin: "c \<in> set L" using c(1) by simp
        have c0: "fst c \<noteq> 0" using rep_facts(4)[OF r] cin by force
        have cb: "unat (heap_base s) \<le> unat (fst c)" "unat (fst c) + 32 + unat (fst (snd c)) \<le> ?lim"
          using laid_out_bounds[OF lo cin] by auto
        have un: "unat newp = unat (fst c) + 32"
          unfolding newp_def hdr_sz_32 using cb rep_facts(2)[OF r] by (simp add: unat_plus)
        have newp0: "newp \<noteq> 0" using un by auto
        have kle: "unat k \<le> unat ?a" "unat k \<le> unat (size_B (blocks s1 ?b))"
          by (simp_all add: k_def min_def word_le_nat_alt)
        have asz: "unat ?a \<le> unat (fst (snd c))" using c(2) by (simp add: fits_def word_le_nat_alt)
        have hb: "heap_base s1 = heap_base s" "heap_total_size s1 = heap_total_size s"
          by (simp_all add: s1_def)
        have w1: "within_heap s1 newp k"
          using un cb kle asz by (simp add: within_heap_def hb)
        obtain x1 where x1: "x1 \<in> set L1" "fst x1 = ?b" using bin1 by auto
        have lo1: "laid_out (unat (heap_base s1)) L1 (unat (heap_base s1) + unat (heap_total_size s1))"
          using r1 by (simp add: rep_def)
        have h1: "hdrs (blocks s1) 0 L1 0" using r1 by (simp add: rep_def)
        have sb: "size_B (blocks s1 ?b) = fst (snd x1)" using hdrs_mem[OF h1 x1(1)] x1(2) by simp
        have bb: "unat (heap_base s) \<le> unat ?b" "unat ?b + 32 + unat (fst (snd x1)) \<le> ?lim"
          using laid_out_bounds[OF lo1 x1(1)] x1(2) hb by auto
        have "unat (?b + hdr_sz) = unat ?b + 32"
          unfolding hdr_sz_32 using bb rep_facts(2)[OF r] by (simp add: unat_plus)
        then have up: "unat ptr = unat ?b + 32" by (simp only: pb)
        have w2: "within_heap s1 ptr k"
          using up bb kle sb by (simp add: within_heap_def hb)
        define s2 where "s2 = s1\<lparr>bytes := memcpy_bytes (bytes s1) newp ptr k\<rparr>"
        have r2: "rep s2 L1" using r1 by (simp add: s2_def)
        have re: "realloc sys s ptr n = Inr (newp, fst (free s2 ptr), snd (free s2 ptr))"
          using c(3) newp0 w1 w2
          by (simp add: pre s1_def[symmetric] newp_def[symmetric] k_def[symmetric] Let_def
                s2_def[symmetric] split: prod.splits)
        from free_rep[OF r2, of ptr] bin1 obtain L' where "rep (snd (free s2 ptr)) L'"
          by auto
        with re show ?thesis by blast
      qed
    qed
  qed
qed

section \<open>Every reachable state is represented by a list\<close>

lemma calloc_rep:
  assumes r: "rep s L" and c: "calloc sys s k n = Inr (p, s')"
  shows "\<exists>L'. rep s' L'"
proof -
  from malloc_rep_ex[OF r, of sys "k * n"] obtain q s1 L1 where
    m: "malloc sys s (k * n) = Inr (q, s1)" "rep s1 L1" by blast
  with c r show ?thesis
    by (auto simp: calloc_def Let_def split: if_splits)
qed

lemma reachable_rep: "reachable s \<Longrightarrow> \<exists>L. rep s L"
proof (induction rule: reachable.induct)
  case (by_init s0 sys n s)
  then show ?case using init_rep by blast
next
  case (by_malloc s sys n p s')
  then obtain L where "rep s L" by blast
  from malloc_rep_ex[OF this, of sys n] by_malloc.hyps(2) show ?case by auto
next
  case (by_free s ptr d s')
  then obtain L where r: "rep s L" by blast
  from by_free.hyps(2) have "ptr = 0 \<or> \<not> pointer_in_heap s ptr \<or> payload_to_block ptr \<in> fst ` set L"
    by (simp add: caller_pointer_def rep_in_chain[OF r])
  from free_rep[OF r this] by_free.hyps(3) show ?case by simp
next
  case (by_realloc s ptr sys n p d s')
  then obtain L where r: "rep s L" by blast
  from by_realloc.hyps(2) have "ptr = 0 \<or> \<not> pointer_in_heap s ptr \<or> payload_to_block ptr \<in> fst ` set L"
    by (simp add: caller_pointer_def rep_in_chain[OF r])
  from realloc_rep[OF r this, of sys n] by_realloc.hyps(3) show ?case by auto
next
  case (by_calloc s sys k n p s')
  then show ?case using calloc_rep by blast
next
  case (by_write s b a v)
  then show ?case by simp
qed

section \<open>What the operations do in reachable states\<close>

text \<open>
  The calls return: \<^verbatim>\<open>malloc\<close> and \<^verbatim>\<open>realloc\<close> always, \<^verbatim>\<open>calloc\<close> whenever the byte
  count does not wrap in \<^verbatim>\<open>align_up\<close>. A block handed out holds the rounded request, and
  \<^verbatim>\<open>calloc\<close> zeroes exactly the bytes asked for, all of them inside that block.
\<close>

lemma malloc_returns: "reachable s \<Longrightarrow> \<exists>p s'. malloc sys s n = Inr (p, s')"
  using reachable_rep malloc_rep_ex by blast

lemma realloc_returns:
  "reachable s \<Longrightarrow> caller_pointer s ptr \<Longrightarrow> \<exists>p d s'. realloc sys s ptr n = Inr (p, d, s')"
proof -
  assume "reachable s" and c: "caller_pointer s ptr"
  then obtain L where r: "rep s L" using reachable_rep by blast
  from c have "ptr = 0 \<or> \<not> pointer_in_heap s ptr \<or> payload_to_block ptr \<in> fst ` set L"
    by (simp add: caller_pointer_def rep_in_chain[OF r])
  from realloc_rep[OF r this, of sys n] show ?thesis by blast
qed

lemma malloc_block_covers:
  assumes rs: "reachable s" and m: "malloc sys s sz = Inr (p, s')" and p: "p \<noteq> 0"
  shows "request_size sz \<le> size_B (blocks s' (payload_to_block p))"
    and "\<not> free_B (blocks s' (payload_to_block p))"
proof -
  from rs obtain L where r: "rep s L" using reachable_rep by blast
  let ?a = "request_size sz"
  from malloc_success[OF r m p] obtain xs ys b bs where
    le: "?a \<le> bs" and pb: "payload_to_block p = b"
    and r1: "rep s' (xs @ a_split (b, bs, True) ?a @ ys)"
    by blast
  have h1: "hdrs (blocks s') 0 (xs @ a_split (b, bs, True) ?a @ ys) 0"
    using r1 by (simp add: rep_def)
  then have "(size_B (blocks s' b) = ?a \<or> size_B (blocks s' b) = bs) \<and> \<not> free_B (blocks s' b)"
    by (auto simp: a_split_def hdrs_append split: if_splits)
  with le show "request_size sz \<le> size_B (blocks s' (payload_to_block p))"
    and "\<not> free_B (blocks s' (payload_to_block p))"
    by (auto simp: pb)
qed

lemma calloc_null_cases:
  "k = 0 \<or> n = 0 \<or> (- 1) div n < k \<Longrightarrow> calloc sys s k n = Inr (0, s)"
  by (auto simp: calloc_def)

lemma memset_bytes_zero: "i < n \<Longrightarrow> memset_bytes m p 0 n (p + i) = 0"
  by (simp add: memset_bytes_def)

lemma calloc_zero_fills:
  assumes rs: "reachable s" and k: "k \<noteq> 0" and n: "n \<noteq> 0" and ov: "\<not> (- 1) div n < k"
    and fit: "unat (k * n) + 15 < 2 ^ 64"
  shows "\<exists>p s1. malloc sys s (k * n) = Inr (p, s1) \<and>
           (p = 0 \<longrightarrow> calloc sys s k n = Inr (0, s1)) \<and>
           (p \<noteq> 0 \<longrightarrow>
              calloc sys s k n = Inr (p, s1\<lparr>bytes := memset_bytes (bytes s1) p 0 (k * n)\<rparr>) \<and>
              (\<forall>i. i < k * n \<longrightarrow> memset_bytes (bytes s1) p 0 (k * n) (p + i) = 0))"
proof -
  from rs obtain L where r: "rep s L" using reachable_rep by blast
  from malloc_rep_ex[OF r, of sys "k * n"] obtain p s1 where
    m: "malloc sys s (k * n) = Inr (p, s1)" by blast
  show ?thesis
  proof (cases "p = 0")
    case True
    with m k n ov show ?thesis by (auto simp: calloc_def Let_def)
  next
    case False
    let ?a = "request_size (k * n)"
    from malloc_success[OF r m False] obtain xs ys b bs where
      L: "L = xs @ (b, bs, True) # ys" and le: "?a \<le> bs" and p: "p = b + hdr_sz"
      and s1: "s1 = s\<lparr>blocks := split_block (blocks s) b ?a\<rparr>"
      by blast
    have xin: "(b, bs, True) \<in> set L" using L by simp
    have lo: "laid_out (unat (heap_base s)) L (unat (heap_base s) + unat (heap_total_size s))"
      using r by (simp add: rep_def)
    from laid_out_bounds[OF lo xin]
    have bb: "unat (heap_base s) \<le> unat b"
      "unat b + 32 + unat bs \<le> unat (heap_base s) + unat (heap_total_size s)" by simp_all
    have up: "unat p = unat b + 32" using rep_payload_nonzero(2)[OF r xin] p by simp
    have "unat (k * n) \<le> unat bs"
      using request_size_covers[OF fit] le by (simp add: word_le_nat_alt)
    with bb up have w: "within_heap s1 p (k * n)" by (simp add: within_heap_def s1)
    have "calloc sys s k n = Inr (p, s1\<lparr>bytes := memset_bytes (bytes s1) p 0 (k * n)\<rparr>)"
      using m k n ov False w by (simp add: calloc_def Let_def)
    with m False show ?thesis by (auto simp: memset_bytes_zero)
  qed
qed

lemma calloc_write_inside_block:
  assumes rs: "reachable s" and c: "calloc sys s k n = Inr (p, s')" and p: "p \<noteq> 0"
  shows "unat (k * n) \<le> unat (size_B (blocks s' (payload_to_block p)))"
proof -
  from rs obtain L where r: "rep s L" using reachable_rep by blast
  from malloc_rep_ex[OF r, of sys "k * n"] obtain q s1 where
    m: "malloc sys s (k * n) = Inr (q, s1)" by blast
  from c p m have q: "q = p" and w: "within_heap s1 p (k * n)"
    and s': "s' = s1\<lparr>bytes := memset_bytes (bytes s1) p 0 (k * n)\<rparr>"
    by (auto simp: calloc_def Let_def split: if_splits)
  let ?a = "request_size (k * n)"
  from malloc_success[OF r m[unfolded q] p] obtain xs ys b bs where
    L: "L = xs @ (b, bs, True) # ys" and le: "?a \<le> bs" and pb: "payload_to_block p = b"
    and pp: "p = b + hdr_sz"
    and s1: "s1 = s\<lparr>blocks := split_block (blocks s) b ?a\<rparr>"
    and r1: "rep s1 (xs @ a_split (b, bs, True) ?a @ ys)"
    by blast
  have xin: "(b, bs, True) \<in> set L" using L by simp
  have up: "unat p = unat b + 32" using rep_payload_nonzero(2)[OF r xin] pp by simp
  have "unat (heap_base s1) + unat (heap_total_size s1) < 2 ^ 64"
    using rep_facts(2)[OF r1] .
  with w up have fit: "unat (k * n) + 15 < 2 ^ 64" by (simp add: within_heap_def)
  have cov: "unat (k * n) \<le> unat ?a" using request_size_covers[OF fit] .
  have h1: "hdrs (blocks s1) 0 (xs @ a_split (b, bs, True) ?a @ ys) 0"
    using r1 by (simp add: rep_def)
  have "size_B (blocks s1 b) = ?a \<or> size_B (blocks s1 b) = bs"
    using h1 by (auto simp: a_split_def hdrs_append split: if_splits)
  with cov le have "unat (k * n) \<le> unat (size_B (blocks s1 b))"
    by (auto simp: word_le_nat_alt)
  then show ?thesis by (simp add: s' pb)
qed

lemma calloc_returns:
  "reachable s \<Longrightarrow> unat (k * n) + 15 < 2 ^ 64 \<Longrightarrow> \<exists>p s'. calloc sys s k n = Inr (p, s')"
proof -
  assume rs: "reachable s" and fit: "unat (k * n) + 15 < 2 ^ 64"
  show ?thesis
  proof (cases "k = 0 \<or> n = 0 \<or> (- 1) div n < k")
    case True
    then show ?thesis using calloc_null_cases by blast
  next
    case False
    then have "k \<noteq> 0" "n \<noteq> 0" "\<not> (- 1) div n < k" by simp_all
    from calloc_zero_fills[OF rs this fit, of sys] show ?thesis by blast
  qed
qed

section \<open>The concrete run, evaluated\<close>

lemmas ex_eval =
  request_size_def align_up_def ALIGNMENT_def MIN_BLOCK_SIZE_def hdr_sz_32
  payload_to_block_def block_to_payload_def pointer_in_heap_def outside_arena_def
  set_size_def set_free_def set_next_def set_prev_def Let_def

lemma ex_init_eq:
  "init_allocator ex_sys ex_blank 1024 = Inr ex_init"
  by (simp add: ex_init_def init_allocator_def ex_blank_def ex_sys_def Let_def)

lemma ex_init_fields:
  "heap_base ex_init = 4096" "heap_total_size ex_init = 1024" "head ex_init = 4096"
  "initialized ex_init"
  "blocks ex_init = (\<lambda>_. \<lparr>size_B = 0, free_B = False, next_B = 0, prev_B = 0\<rparr>)
      (4096 := \<lparr>size_B = 992, free_B = True, next_B = 0, prev_B = 0\<rparr>)"
  by (simp_all add: ex_init_def init_allocator_def ex_blank_def ex_sys_def align_up_def ALIGNMENT_def
     hdr_sz_32 Let_def)

lemma ex_init_reachable: "reachable ex_init"
  by (rule reachable.by_init[of ex_blank ex_sys 1024])
     (simp_all add: ex_init_eq, simp_all add: ex_blank_def ex_sys_def fresh_buffer_def align_up_def
        ALIGNMENT_def hdr_sz_32)

lemma ex_one_eq: "malloc ex_sys ex_init 64 = Inr (4128, ex_one)"
  by (simp add: ex_one_def malloc_def ex_init_fields request_size_def align_up_def ALIGNMENT_def
      MIN_BLOCK_SIZE_def find_fit.simps block_to_payload_def hdr_sz_32)

lemma ex_one_fields:
  "heap_base ex_one = 4096" "heap_total_size ex_one = 1024" "head ex_one = 4096"
  "initialized ex_one"
  "blocks ex_one 4096 = \<lparr>size_B = 64, free_B = False, next_B = 4192, prev_B = 0\<rparr>"
  "blocks ex_one 4192 = \<lparr>size_B = 896, free_B = True, next_B = 0, prev_B = 4096\<rparr>"
  by (simp_all add: ex_one_def malloc_def ex_init_fields request_size_def align_up_def ALIGNMENT_def
      MIN_BLOCK_SIZE_def find_fit.simps block_to_payload_def hdr_sz_32 split_block_def
      set_size_def set_free_def set_next_def set_prev_def Let_def)

lemma ex_one_reachable: "reachable ex_one"
  by (rule reachable.by_malloc[OF ex_init_reachable ex_one_eq])

lemma ex_one_in_chain: "in_chain ex_one 4096"
  unfolding in_chain_def
  by (rule exI[of _ "[4096, 4192]"]) (simp add: ex_one_fields)

lemma ex_written_reachable: "reachable ex_written"
  unfolding ex_written_def
  by (rule reachable.by_write[OF ex_one_reachable ex_one_in_chain])
     (simp_all add: ex_one_fields hdr_sz_32)

lemma ex_written_fields:
  "heap_base ex_written = 4096" "heap_total_size ex_written = 1024" "head ex_written = 4096"
  "initialized ex_written"
  "blocks ex_written 4096 = \<lparr>size_B = 64, free_B = False, next_B = 4192, prev_B = 0\<rparr>"
  "blocks ex_written 4192 = \<lparr>size_B = 896, free_B = True, next_B = 0, prev_B = 4096\<rparr>"
  "bytes ex_written 4128 = 170"
  by (simp_all add: ex_written_def ex_one_fields)

lemma ex_tiny_eq: "init_allocator ex_sys ex_blank 16 = Inr ex_tiny"
  by (simp add: ex_tiny_def init_allocator_def ex_blank_def ex_sys_def Let_def)

lemma ex_tiny_fields:
  "heap_base ex_tiny = 4096" "heap_total_size ex_tiny = 16" "head ex_tiny = 4096"
  "initialized ex_tiny"
  "blocks ex_tiny 4096 = \<lparr>size_B = - 16, free_B = True, next_B = 0, prev_B = 0\<rparr>"
  by (simp_all add: ex_tiny_def init_allocator_def ex_blank_def ex_sys_def align_up_def
      ALIGNMENT_def hdr_sz_32 Let_def)

lemma ex_small_eq:
  "malloc sys ex_init 32 =
     Inr (4128, ex_init\<lparr>blocks := split_block (blocks ex_init) 4096 32\<rparr>)"
  by (simp add: malloc_def ex_init_fields ex_eval find_fit.simps)

lemma ex_small_size:
  "size_B (split_block (blocks ex_init) 4096 32 4096) = 32"
  by (simp add: ex_init_fields split_block_def ex_eval)


lemma test_init_fields:
  "heap_base test_init = 65536" "heap_total_size test_init = 1048576" "head test_init = 65536"
  "initialized test_init"
  "blocks test_init 65536 = \<lparr>size_B = 1048544, free_B = True, next_B = 0, prev_B = 0\<rparr>"
  by (simp_all add: test_init_def init_allocator_def ex_blank_def test_sys_def ex_eval)

lemma test_a_eq: "malloc test_sys test_init 64 = Inr (65568, test_a)"
  by (simp add: test_a_def malloc_def test_init_fields ex_eval find_fit.simps)

lemma test_a_fields:
  "heap_base test_a = 65536" "heap_total_size test_a = 1048576" "head test_a = 65536"
  "initialized test_a"
  "blocks test_a 65536 = \<lparr>size_B = 64, free_B = False, next_B = 65632, prev_B = 0\<rparr>"
  "blocks test_a 65632 = \<lparr>size_B = 1048448, free_B = True, next_B = 0, prev_B = 65536\<rparr>"
  by (simp_all add: test_a_def malloc_def test_init_fields ex_eval find_fit.simps split_block_def)

lemma test_b_eq: "malloc test_sys test_a 128 = Inr (65664, test_b)"
  by (simp add: test_b_def malloc_def test_a_fields ex_eval find_fit.simps)

lemma test_b_fields:
  "heap_base test_b = 65536" "heap_total_size test_b = 1048576" "head test_b = 65536"
  "initialized test_b"
  "blocks test_b 65536 = \<lparr>size_B = 64, free_B = False, next_B = 65632, prev_B = 0\<rparr>"
  "blocks test_b 65632 = \<lparr>size_B = 128, free_B = False, next_B = 65792, prev_B = 65536\<rparr>"
  "blocks test_b 65792 = \<lparr>size_B = 1048288, free_B = True, next_B = 0, prev_B = 65632\<rparr>"
  by (simp_all add: test_b_def malloc_def test_a_fields ex_eval find_fit.simps split_block_def)

lemma test_freed_eq: "free test_b 65568 = ([], test_freed)"
  by (simp add: test_freed_def free_def test_b_fields ex_eval)

lemma test_freed_fields:
  "heap_base test_freed = 65536" "heap_total_size test_freed = 1048576" "head test_freed = 65536"
  "initialized test_freed"
  "blocks test_freed 65536 = \<lparr>size_B = 64, free_B = True, next_B = 65632, prev_B = 0\<rparr>"
  "blocks test_freed 65632 = \<lparr>size_B = 128, free_B = False, next_B = 65792, prev_B = 65536\<rparr>"
  "blocks test_freed 65792 = \<lparr>size_B = 1048288, free_B = True, next_B = 0, prev_B = 65632\<rparr>"
  by (simp_all add: test_freed_def free_def test_b_fields ex_eval coalesce_def)


lemma test_grown_step:
  "realloc test_sys test_freed 65664 512 =
     Inr (65664, [], test_freed\<lparr>blocks := absorb (blocks test_freed) 65632 65792\<rparr>)"
proof -
  have "realloc test_sys test_freed 65664 512 =
     Inr (65664, [], test_freed\<lparr>blocks := absorb (blocks test_freed) (payload_to_block 65664)
                                 (next_B (blocks test_freed (payload_to_block 65664)))\<rparr>)"
    by (rule realloc_grow_absorbs) (simp_all add: test_freed_fields ex_eval)
  then show ?thesis by (simp add: test_freed_fields ex_eval)
qed

lemma test_grown_eq: "realloc test_sys test_freed 65664 512 = Inr (65664, [], test_grown)"
  by (simp add: test_grown_def test_grown_step)

lemma test_grown_fields:
  "heap_base test_grown = 65536" "heap_total_size test_grown = 1048576" "head test_grown = 65536"
  "initialized test_grown"
  "blocks test_grown 65536 = \<lparr>size_B = 64, free_B = True, next_B = 65632, prev_B = 0\<rparr>"
  "blocks test_grown 65632 = \<lparr>size_B = 1048448, free_B = False, next_B = 0, prev_B = 65536\<rparr>"
  by (simp_all add: test_grown_def test_grown_step test_freed_fields absorb_def ex_eval)

lemma test_big_eq: "malloc test_sys test_init 1024 = Inr (65568, test_big)"
  by (simp add: test_big_def malloc_def test_init_fields ex_eval find_fit.simps)

lemma test_big_fields:
  "heap_base test_big = 65536" "heap_total_size test_big = 1048576" "head test_big = 65536"
  "initialized test_big"
  "blocks test_big 65536 = \<lparr>size_B = 1024, free_B = False, next_B = 66592, prev_B = 0\<rparr>"
  "blocks test_big 66592 = \<lparr>size_B = 1047488, free_B = True, next_B = 0, prev_B = 65536\<rparr>"
  by (simp_all add: test_big_def malloc_def test_init_fields ex_eval find_fit.simps split_block_def)

section \<open>The claims\<close>

text \<open>
  C1, for arenas that hold at least one header. In every arena state reached from an
  initialisation whose rounded size is at least the header size
  (\<open>hdr_sz \<le> align_up heap_size\<close>, a premise of \<open>reachable.by_init\<close>) the chain partitions
  the arena exactly: the walk from \<open>head\<close> along \<^verbatim>\<open>next\<close> starts at the arena base, each
  following header starts right after the payload before it (header address + header size +
  payload size), and the last payload ends at base + total size. Reachable states are closed
  under \<^verbatim>\<open>malloc\<close>, \<^verbatim>\<open>free\<close>, \<^verbatim>\<open>realloc\<close> and \<^verbatim>\<open>calloc\<close>, so every operation preserves the
  tiling. (A call that ends in an \<open>error\<close> leaves no state behind; by \<open>malloc_returns\<close>,
  \<open>realloc_returns\<close> and \<open>calloc_returns\<close> the only such call on caller pointers from a
  reachable state is a \<^verbatim>\<open>calloc\<close> whose byte count wraps in \<^verbatim>\<open>align_up\<close>.)
\<close>

theorem chain_tiles_arena:
  "reachable s \<Longrightarrow> \<exists>as. walk (blocks s) (head s) as \<and> tiles s as"
  using reachable_rep rep_walk rep_tiles by blast

theorem chain_tiles_arena_witness:
  "reachable ex_one \<and> walk (blocks ex_one) (head ex_one) [4096, 4192] \<and>
   tiles ex_one [4096, 4192]"
proof -
  from chain_tiles_arena[OF ex_one_reachable] obtain as
    where as: "walk (blocks ex_one) (head ex_one) as" "tiles ex_one as" by blast
  have "walk (blocks ex_one) (head ex_one) [4096, 4192]" by (simp add: ex_one_fields)
  with as(1) have "as = [4096, 4192]" using walk_unique by blast
  with as ex_one_reachable show ?thesis by simp
qed

text \<open>
  C1 does not hold of every arena \<^verbatim>\<open>init_allocator\<close> sets up, since the size is not
  checked: \<^verbatim>\<open>init_allocator(16)\<close> on a valid buffer of 16 bytes stores
  \<^verbatim>\<open>head->size = 16 - 32\<close>, which wraps to \<open>2 ^ 64 - 16\<close>; the chain is this one block,
  and its payload does not end at the end of the 16-byte arena.
\<close>

theorem tiny_arena_is_not_tiled:
  "\<not> initialized ex_blank \<and>
   fresh_buffer (ex_sys (align_up 16 ALIGNMENT)) (align_up 16 ALIGNMENT) \<and>
   init_allocator ex_sys ex_blank 16 = Inr ex_tiny \<and>
   heap_total_size ex_tiny = 16 \<and>
   size_B (blocks ex_tiny 4096) = - 16 \<and>
   walk (blocks ex_tiny) (head ex_tiny) [4096] \<and>
   \<not> tiles ex_tiny [4096]"
proof -
  have 1: "\<not> initialized ex_blank" by (simp add: ex_blank_def)
  have 2: "fresh_buffer (ex_sys (align_up 16 ALIGNMENT)) (align_up 16 ALIGNMENT)"
    by (simp add: fresh_buffer_def ex_sys_def align_up_def ALIGNMENT_def)
  have 3: "walk (blocks ex_tiny) (head ex_tiny) [4096]" by (simp add: ex_tiny_fields)
  have "unat (- 16 :: size_t) = 2 ^ 64 - 16" by simp
  then have 4: "\<not> tiles ex_tiny [4096]"
    by (simp add: tiles_def ex_tiny_fields hdr_sz_32)
  from 1 2 3 4 ex_tiny_eq ex_tiny_fields show ?thesis by simp
qed

text \<open>
  C2. In every reachable arena state no two blocks that follow each other in the chain are
  both free; in particular this holds of the state a release leaves behind.
\<close>

theorem no_two_adjacent_free:
  "reachable s \<Longrightarrow>
   no_adjacent_free s \<and> (\<forall>ptr. caller_pointer s ptr \<longrightarrow> no_adjacent_free (snd (free s ptr)))"
proof -
  assume r: "reachable s"
  have "no_adjacent_free t" if "reachable t" for t
    using reachable_rep[OF that] rep_no_adjacent_free by blast
  moreover have "reachable (snd (free s ptr))" if "caller_pointer s ptr" for ptr
    using reachable.by_free[OF r that, of "fst (free s ptr)" "snd (free s ptr)"] by simp
  ultimately show ?thesis using r by blast
qed

theorem no_two_adjacent_free_witness:
  "reachable ex_one \<and> caller_pointer ex_one 4128 \<and> no_adjacent_free ex_one \<and>
   no_adjacent_free (snd (free ex_one 4128)) \<and>
   walk (blocks (snd (free ex_one 4128))) (head (snd (free ex_one 4128))) [4096]"
proof -
  have w: "walk (blocks ex_one) (head ex_one) [4096, 4192]" by (simp add: ex_one_fields)
  have c: "caller_pointer ex_one 4128"
    unfolding caller_pointer_def in_chain_def
    using w by (auto simp: payload_to_block_def hdr_sz_32 intro!: exI[of _ "[4096, 4192]"])
  have f: "walk (blocks (snd (free ex_one 4128))) (head (snd (free ex_one 4128))) [4096]"
    by (simp add: free_def ex_one_fields payload_to_block_def hdr_sz_32 coalesce_def Let_def
          set_size_def set_free_def set_next_def set_prev_def)
  from no_two_adjacent_free[OF ex_one_reachable] c f ex_one_reachable show ?thesis by blast
qed

text \<open>
  C3, at a failing input: the run of the repository's test program.  After
  \<^verbatim>\<open>init_allocator(1 MiB)\<close>, \<^verbatim>\<open>a = malloc(64)\<close>, \<^verbatim>\<open>b = malloc(128)\<close> and \<^verbatim>\<open>free(a)\<close> the
  chain is the free block of \<open>a\<close>, the block of \<open>b\<close> (128 bytes) and a free block of
  1048288 bytes. \<^verbatim>\<open>realloc(b, 512)\<close> merges the free neighbour into the block of \<open>b\<close> and
  returns \<open>b\<close>, but splits nothing off although the merged payload holds 512 bytes plus a
  header plus the minimum payload: the block of \<open>b\<close> keeps all 1048448 bytes and ends the
  chain, and the test's \<^verbatim>\<open>malloc(70)\<close> that follows returns null.
\<close>

theorem realloc_grow_never_splits:
  "malloc test_sys test_init 64 = Inr (65568, test_a) \<and>
   malloc test_sys test_a 128 = Inr (65664, test_b) \<and>
   free test_b 65568 = ([], test_freed) \<and>
   realloc test_sys test_freed 65664 512 = Inr (65664, [], test_grown) \<and>
   blocks test_grown (payload_to_block 65664) =
     \<lparr>size_B = 1048448, free_B = False, next_B = 0, prev_B = 65536\<rparr> \<and>
   walk (blocks test_grown) (head test_grown) [65536, 65632] \<and>
   unat (request_size 512) + unat hdr_sz + unat MIN_BLOCK_SIZE \<le> unat (1048448 :: size_t) \<and>
   malloc test_sys test_grown 70 = Inr (0, test_grown)"
proof -
  have 1: "blocks test_grown (payload_to_block 65664) =
     \<lparr>size_B = 1048448, free_B = False, next_B = 0, prev_B = 65536\<rparr>"
    by (simp add: test_grown_fields ex_eval)
  have 2: "walk (blocks test_grown) (head test_grown) [65536, 65632]"
    by (simp add: test_grown_fields)
  have 3: "unat (request_size 512) + unat hdr_sz + unat MIN_BLOCK_SIZE \<le> unat (1048448 :: size_t)"
    by (simp add: ex_eval)
  have "find_fit (blocks test_grown) (head test_grown) (request_size 70) = Some 0"
    by (simp add: test_grown_fields find_fit.simps ex_eval)
  then have 4: "malloc test_sys test_grown 70 = Inr (0, test_grown)"
    by (simp add: malloc_def test_grown_fields(4))
  from test_a_eq test_b_eq test_freed_eq test_grown_eq 1 2 3 4 show ?thesis by simp
qed

text \<open>
  C4, at a failing input: the shrinking \<^verbatim>\<open>realloc\<close> of the repository's test program on a
  fresh arena. After \<^verbatim>\<open>init_allocator(1 MiB)\<close> and \<^verbatim>\<open>big = malloc(1024)\<close> the block of
  \<open>big\<close> has a payload of 1024 bytes. \<^verbatim>\<open>realloc(big, 128)\<close> returns \<open>big\<close>, and although
  the payload holds the rounded size 128 plus a header plus the minimum payload, nothing is
  split off: the state is the one before the call, because \<^verbatim>\<open>split_block\<close> returns at
  once on a block that is not free.
\<close>

theorem realloc_shrink_never_splits:
  "malloc test_sys test_init 1024 = Inr (65568, test_big) \<and>
   size_B (blocks test_big (payload_to_block 65568)) = 1024 \<and>
   unat (request_size 128) + unat hdr_sz + unat MIN_BLOCK_SIZE
     \<le> unat (size_B (blocks test_big (payload_to_block 65568))) \<and>
   realloc test_sys test_big 65568 128 = Inr (65568, [], test_big)"
proof -
  have "realloc test_sys test_big 65568 128 = Inr (65568, [], test_big)"
    by (rule realloc_shrink_identity) (simp_all add: test_big_fields ex_eval)
  then show ?thesis by (simp add: test_big_eq test_big_fields ex_eval)
qed

text \<open>
  C5. When \<^verbatim>\<open>realloc\<close> takes the relocate path and its fresh allocation fails, it returns
  null, prints nothing, and the whole allocator state is what it was before the call: the
  original block's header (links, free flag, size) and every payload byte are unchanged.
\<close>

theorem failed_relocation_keeps_block:
  "reachable s \<Longrightarrow> relocates s ptr n \<Longrightarrow> malloc sys s n = Inr (0, s1) \<Longrightarrow>
   realloc sys s ptr n = Inr (0, [], s)"
proof -
  assume rs: "reachable s" and rl: "relocates s ptr n" and m: "malloc sys s n = Inr (0, s1)"
  from rs obtain L where r: "rep s L" using reachable_rep by blast
  have s1: "s1 = s" using malloc_null[OF r m] .
  from rl have "ptr \<noteq> 0" "n \<noteq> 0" "pointer_in_heap s ptr" 
    "\<not> request_size n \<le> size_B (blocks s (payload_to_block ptr))"
    "\<not> (next_B (blocks s (payload_to_block ptr)) \<noteq> 0 \<and>
            free_B (blocks s (next_B (blocks s (payload_to_block ptr)))) \<and>
            request_size n \<le> size_B (blocks s (payload_to_block ptr)) + hdr_sz +
              size_B (blocks s (next_B (blocks s (payload_to_block ptr)))))"
    by (simp_all add: relocates_def Let_def)
  from realloc_move[OF this, of sys] m s1 show ?thesis by simp
qed

theorem failed_relocation_keeps_block_witness:
  "reachable ex_one \<and> relocates ex_one 4128 2000 \<and>
   malloc ex_sys ex_one 2000 = Inr (0, ex_one) \<and>
   realloc ex_sys ex_one 4128 2000 = Inr (0, [], ex_one) \<and>
   reachable ex_written \<and> relocates ex_written 4128 2000 \<and>
   malloc ex_sys ex_written 2000 = Inr (0, ex_written) \<and>
   realloc ex_sys ex_written 4128 2000 = Inr (0, [], ex_written) \<and>
   bytes ex_written 4128 = 170"
proof -
  have a: "relocates ex_one 4128 2000"
    by (simp add: relocates_def ex_one_fields ex_eval)
  have b: "malloc ex_sys ex_one 2000 = Inr (0, ex_one)"
    by (simp add: malloc_def ex_one_fields ex_eval find_fit.simps)
  have c: "relocates ex_written 4128 2000"
    by (simp add: relocates_def ex_written_fields ex_eval)
  have d: "malloc ex_sys ex_written 2000 = Inr (0, ex_written)"
    by (simp add: malloc_def ex_written_fields ex_eval find_fit.simps)
  from failed_relocation_keeps_block[OF ex_one_reachable a b]
    failed_relocation_keeps_block[OF ex_written_reachable c d]
    a b c d ex_one_reachable ex_written_reachable ex_written_fields(7)
  show ?thesis by simp
qed





text \<open>
  C8, at a failing input. \<^verbatim>\<open>calloc(1, SIZE_MAX)\<close> passes both tests of \<^verbatim>\<open>calloc\<close> (no
  argument is zero and the product does not overflow). Its \<^verbatim>\<open>malloc(SIZE_MAX)\<close> rounds the
  size to 0, raises it to 32 and returns a block of 32 bytes; the \<^verbatim>\<open>memset\<close> of
  \<^verbatim>\<open>SIZE_MAX\<close> bytes that follows leaves the backing buffer.
\<close>

theorem calloc_huge_runs_out_of_buffer:
  "\<not> (- 1) div (- 1 :: size_t) < 1 \<and>
   (\<exists>s1. malloc ex_sys ex_init (1 * (- 1)) = Inr (4128, s1) \<and>
      size_B (blocks s1 (payload_to_block 4128)) = 32 \<and>
      \<not> within_heap s1 4128 (1 * (- 1))) \<and>
   calloc ex_sys ex_init 1 (- 1) = Inl Out_of_bounds"
proof -
  let ?s1 = "ex_init\<lparr>blocks := split_block (blocks ex_init) 4096 32\<rparr>"
  have a: "- 1 - (ALIGNMENT - 1) < (- 1 :: size_t)" by (simp add: ALIGNMENT_def)
  have rs: "request_size (- 1) = 32"
    using align_up_wraps_to_zero[OF a] by (simp add: request_size_def MIN_BLOCK_SIZE_def)
  have m: "malloc ex_sys ex_init (- 1) = Inr (4128, ?s1)"
    unfolding malloc_def rs by (simp add: ex_init_fields ex_eval find_fit.simps)
  have w: "\<not> within_heap ?s1 4128 (- 1)"
    by (simp add: within_heap_def ex_init_fields unsigned_minus_1_eq_mask mask_eq_exp_minus_1)
  have sz: "size_B (blocks ?s1 (payload_to_block 4128)) = 32"
    using ex_small_size by (simp add: ex_eval)
  have c: "calloc ex_sys ex_init 1 (- 1) = Inl Out_of_bounds"
    using m w by (simp add: calloc_def)
  from m w sz c show ?thesis by simp
qed

text \<open>
  C9. Releasing the null pointer does nothing. A pointer outside the arena, and a pointer
  whose header address lies outside the arena, are reported and leave the state as it was;
  so does releasing a block that is already free. Releasing the same pointer twice changes
  the state only once: the second call changes nothing, and where the first call released
  the block the second is reported as a double release.
\<close>

theorem release_rejects_bad_pointers:
  "reachable s \<Longrightarrow>
   free s 0 = ([], s) \<and>
   (ptr \<noteq> 0 \<and> outside_arena s ptr \<longrightarrow> free s ptr = ([Free_not_from_heap ptr], s)) \<and>
   (ptr \<noteq> 0 \<and> \<not> outside_arena s ptr \<and> outside_arena s (payload_to_block ptr) \<longrightarrow>
      free s ptr = ([Free_invalid_header ptr], s)) \<and>
   (ptr \<noteq> 0 \<and> \<not> outside_arena s ptr \<and> \<not> outside_arena s (payload_to_block ptr) \<and>
    free_B (blocks s (payload_to_block ptr)) \<longrightarrow>
      free s ptr = ([Double_free ptr], s)) \<and>
   snd (free (snd (free s ptr)) ptr) = snd (free s ptr) \<and>
   (ptr \<noteq> 0 \<and> fst (free s ptr) = [] \<longrightarrow>
      fst (free (snd (free s ptr)) ptr) = [Double_free ptr])"
proof -
  assume "reachable s"
  then obtain L where r: "rep s L" using reachable_rep by blast
  note o = rep_outside[OF r]
  have 1: "free s 0 = ([], s)" by (simp add: free_def)
  have 2: "free s ptr = ([Free_not_from_heap ptr], s)" if "ptr \<noteq> 0" "outside_arena s ptr"
    using that o[of ptr] by (simp add: free_def)
  have 3: "free s ptr = ([Free_invalid_header ptr], s)"
    if "ptr \<noteq> 0" "\<not> outside_arena s ptr" "outside_arena s (payload_to_block ptr)"
    using that o[of ptr] o[of "payload_to_block ptr"] by (simp add: free_def Let_def)
  have 4: "free s ptr = ([Double_free ptr], s)"
    if "ptr \<noteq> 0" "\<not> outside_arena s ptr" "\<not> outside_arena s (payload_to_block ptr)"
      "free_B (blocks s (payload_to_block ptr))"
    using that o[of ptr] o[of "payload_to_block ptr"] by (simp add: free_def Let_def)
  from 1 2 3 4 free_twice[of s ptr] free_twice_report[of ptr s] show ?thesis by blast
qed

theorem release_rejects_bad_pointers_witness:
  "reachable ex_one \<and>
   free ex_one 0 = ([], ex_one) \<and>
   outside_arena ex_one 8 \<and> free ex_one 8 = ([Free_not_from_heap 8], ex_one) \<and>
   \<not> outside_arena ex_one 4100 \<and> outside_arena ex_one (payload_to_block 4100) \<and>
   free ex_one 4100 = ([Free_invalid_header 4100], ex_one) \<and>
   free_B (blocks ex_one (payload_to_block 4224)) \<and>
   free ex_one 4224 = ([Double_free 4224], ex_one) \<and>
   fst (free ex_one 4128) = [] \<and>
   fst (free (snd (free ex_one 4128)) 4128) = [Double_free 4128] \<and>
   snd (free (snd (free ex_one 4128)) 4128) = snd (free ex_one 4128)"
proof -
  have a: "outside_arena ex_one 8" "\<not> outside_arena ex_one 4100"
    "outside_arena ex_one (payload_to_block 4100)"
    "\<not> outside_arena ex_one 4224" "\<not> outside_arena ex_one (payload_to_block 4224)"
    "free_B (blocks ex_one (payload_to_block 4224))"
    by (simp_all add: ex_one_fields ex_eval)
  have b: "fst (free ex_one 4128) = []"
    by (simp add: free_def ex_one_fields ex_eval)
  from release_rejects_bad_pointers[OF ex_one_reachable, of 8]
    release_rejects_bad_pointers[OF ex_one_reachable, of 4100]
    release_rejects_bad_pointers[OF ex_one_reachable, of 4224]
    release_rejects_bad_pointers[OF ex_one_reachable, of 4128]
    a b ex_one_reachable
  show ?thesis by simp
qed

text \<open>
  C10. For a requested size above \<^verbatim>\<open>SIZE_MAX\<close> minus (alignment minus 1), the round-up
  \<^verbatim>\<open>(n + (a - 1)) & ~(a - 1)\<close> wraps to 0, which is below the minimum payload size, so
  \<^verbatim>\<open>malloc\<close> treats the request as one for the minimum payload size; there is a reachable
  state in which it then returns a non-null pointer to a block whose payload is the minimum
  payload size, smaller than the request.
\<close>

theorem huge_request_wraps:
  "- 1 - (ALIGNMENT - 1) < n \<Longrightarrow>
   align_up n ALIGNMENT = 0 \<and> align_up n ALIGNMENT < MIN_BLOCK_SIZE \<and>
   request_size n = MIN_BLOCK_SIZE \<and>
   malloc sys s n = malloc sys s MIN_BLOCK_SIZE \<and>
   (\<exists>s0 p s1. reachable s0 \<and> malloc sys s0 n = Inr (p, s1) \<and> p \<noteq> 0 \<and>
      size_B (blocks s1 (payload_to_block p)) = MIN_BLOCK_SIZE \<and>
      size_B (blocks s1 (payload_to_block p)) < n)"
proof -
  assume a: "- 1 - (ALIGNMENT - 1) < n"
  have z: "align_up n ALIGNMENT = 0" using align_up_wraps_to_zero[OF a] .
  have rs: "request_size n = MIN_BLOCK_SIZE" by (simp add: request_size_def z MIN_BLOCK_SIZE_def)
  have rm: "request_size MIN_BLOCK_SIZE = MIN_BLOCK_SIZE"
    by (simp add: request_size_def MIN_BLOCK_SIZE_def align_up_def ALIGNMENT_def)
  have big: "MIN_BLOCK_SIZE < n"
    using a by (simp add: MIN_BLOCK_SIZE_def ALIGNMENT_def word_less_nat_alt)
  then have n0: "n \<noteq> 0" by auto
  have eq: "malloc sys t n = malloc sys t MIN_BLOCK_SIZE" for t
    unfolding malloc_def rs rm using n0 by (simp add: MIN_BLOCK_SIZE_def)
  have "malloc sys ex_init n =
          Inr (4128, ex_init\<lparr>blocks := split_block (blocks ex_init) 4096 32\<rparr>)"
    using eq[of ex_init] ex_small_eq[of sys] by (simp add: MIN_BLOCK_SIZE_def)
  moreover have "size_B (blocks (ex_init\<lparr>blocks := split_block (blocks ex_init) 4096 32\<rparr>)
      (payload_to_block 4128)) = MIN_BLOCK_SIZE"
    using ex_small_size by (simp add: payload_to_block_def hdr_sz_32 MIN_BLOCK_SIZE_def)
  ultimately have "\<exists>s0 p s1. reachable s0 \<and> malloc sys s0 n = Inr (p, s1) \<and> p \<noteq> 0 \<and>
      size_B (blocks s1 (payload_to_block p)) = MIN_BLOCK_SIZE \<and>
      size_B (blocks s1 (payload_to_block p)) < n"
    using ex_init_reachable big
    by (intro exI[of _ ex_init] exI[of _ 4128]
          exI[of _ "ex_init\<lparr>blocks := split_block (blocks ex_init) 4096 32\<rparr>"]) simp
  with z rs eq show ?thesis by (simp add: MIN_BLOCK_SIZE_def)
qed

theorem huge_request_wraps_witness:
  "- 1 - (ALIGNMENT - 1) < (- 1 :: size_t) \<and>
   align_up (- 1) ALIGNMENT = 0 \<and> request_size (- 1) = 32 \<and>
   malloc ex_sys ex_init (- 1) = malloc ex_sys ex_init 32 \<and>
   malloc ex_sys ex_init (- 1) =
     Inr (4128, ex_init\<lparr>blocks := split_block (blocks ex_init) 4096 32\<rparr>) \<and>
   size_B (split_block (blocks ex_init) 4096 32 4096) = 32"
proof -
  have a: "- 1 - (ALIGNMENT - 1) < (- 1 :: size_t)" by (simp add: ALIGNMENT_def)
  from huge_request_wraps[OF a, of ex_sys ex_init] a ex_small_eq[of ex_sys] ex_small_size
  show ?thesis by (simp add: MIN_BLOCK_SIZE_def)
qed

end
